theory Spec2Isabelle
  imports Main "HOL-Library.Sublist" "HOL-Library.Multiset"
begin

section \<open>Strings\<close>

text \<open>
  Python strings are modelled as \<^typ>\<open>string\<close>; a character stands for the code point
  with the same number, so the model covers the code points 0 to 255.
\<close>

definition is_space :: "char \<Rightarrow> bool" where
  \<comment> \<open>The characters matched by \<open>\s\<close> in a str pattern and removed by \<open>str.strip()\<close>:
      TAB, LF, VT, FF, CR, FS, GS, RS, US, SPACE, NEL and NBSP.\<close>
  "is_space c = (let n = (of_char c :: nat) in
     (9 \<le> n \<and> n \<le> 13) \<or> (28 \<le> n \<and> n \<le> 32) \<or> n = 133 \<or> n = 160)"

function collapse_ws :: "string \<Rightarrow> string" where
  \<comment> \<open>\<open>re.sub(r'\s+', ' ', text)\<close>: every maximal run of whitespace becomes one space.\<close>
  "collapse_ws [] = []"
| "collapse_ws (c # cs) =
     (if is_space c then CHR '' '' # collapse_ws (dropWhile is_space cs)
      else c # collapse_ws cs)"
  by pat_completeness auto
termination
  by (relation "measure length") (auto simp: length_dropWhile_le less_Suc_eq_le)

definition strip :: "string \<Rightarrow> string" where
  \<comment> \<open>\<open>str.strip()\<close>: leading and trailing whitespace removed.\<close>
  "strip s = rev (dropWhile is_space (rev (dropWhile is_space s)))"

definition normalize_text :: "string option \<Rightarrow> string" where
  \<comment> \<open>\<open>None\<close> is Python's \<open>None\<close> (a key that \<open>dict.get\<close> did not find).\<close>
  "normalize_text text =
     (case text of
        None \<Rightarrow> []
      | Some t \<Rightarrow> if t = [] then [] else take 500 (strip (collapse_ws t)))"

definition lower_char :: "char \<Rightarrow> char" where
  \<comment> \<open>\<open>str.lower()\<close> on one code point below 256: A to Z, and the accented capitals
      192 to 222 apart from the multiplication sign 215, move up by 32.\<close>
  "lower_char c = (let n = (of_char c :: nat) in
     if (65 \<le> n \<and> n \<le> 90) \<or> (192 \<le> n \<and> n \<le> 222 \<and> n \<noteq> 215)
     then char_of (n + 32) else c)"

definition str_lower :: "string \<Rightarrow> string" where
  "str_lower s = map lower_char s"

definition str_in :: "string \<Rightarrow> string \<Rightarrow> bool" where
  \<comment> \<open>Python's \<open>x in s\<close> on strings: \<open>x\<close> occurs in \<open>s\<close> as a contiguous substring.\<close>
  "str_in x s = sublist x s"

section \<open>Configuration\<close>

definition retries :: nat where
  "retries = 4"

definition max_images :: nat where
  "max_images = 200"

definition pre_islamic :: "string list" where
  \<comment> \<open>\<open>CONFIG['historical_periods']['pre_islamic']\<close>\<close>
  "pre_islamic =
     [''Silk'', ''Elam'', ''Achaemenid'', ''Parthian'', ''Sassanian'',
      ''Chogha Zanbil'', ''Tappeh Sialk'', ''Haft Tepe'',
      ''Kuh-e Khwaja'', ''Arg-e Bam'', ''Persepolis'', ''Ancient Iran'',
      ''Zagros'', ''Luristan'']"

definition islamic :: "string list" where
  \<comment> \<open>\<open>CONFIG['historical_periods']['islamic']\<close>\<close>
  "islamic =
     [''Islamic'', ''Ilkhanid'', ''Timurid'', ''Safavid'', ''Qajar'',
      ''Ottoman'', ''Seljuk'', ''Mongol'', ''Abbasid'', ''Umayyad'']"

definition user_agents :: "string list" where
  "user_agents =
     [''Mozilla/5.0 (Windows NT 10.0; Win64; x64) AppleWebKit/537.36 (KHTML, like Gecko) Chrome/91.0.4472.124 Safari/537.36'',
      ''Mozilla/5.0 (Macintosh; Intel Mac OS X 10_15_7) AppleWebKit/605.1.15 (KHTML, like Gecko) Version/14.1.1 Safari/605.1.15'',
      ''Mozilla/5.0 (X11; Linux x86_64) AppleWebKit/537.36 (KHTML, like Gecko) Chrome/92.0.4515.107 Safari/537.36'']"

section \<open>Object records and the period classifier\<close>

text \<open>
  The parsed JSON document of one API reply, seen through the keys the program reads.
  A field is \<open>None\<close> when the key is absent, which is what \<open>dict.get\<close> turns into its
  default. Values that are present have the types of the API contract: strings, a list of
  strings for \<open>tags\<close>, a boolean for \<open>isPublicDomain\<close>, a list of integers for
  \<open>objectIDs\<close>.
\<close>

record obj_data =
  title :: "string option"
  culture :: "string option"
  period :: "string option"
  objectDate :: "string option"
  objectName :: "string option"
  classification :: "string option"
  medium :: "string option"
  dimensions :: "string option"
  creditLine :: "string option"
  country :: "string option"
  region :: "string option"
  tags :: "string list option"
  isPublicDomain :: "bool option"
  primaryImage :: "string option"
  objectIDs :: "int list option"

definition get_default :: "'a option \<Rightarrow> 'a \<Rightarrow> 'a" where
  \<comment> \<open>\<open>d.get(key, default)\<close>\<close>
  "get_default v d = (case v of None \<Rightarrow> d | Some x \<Rightarrow> x)"

definition keyword_in_fields :: "string \<Rightarrow> string \<Rightarrow> string \<Rightarrow> string \<Rightarrow> string \<Rightarrow> bool" where
  \<comment> \<open>The condition of both keyword loops, on the four lower-cased fields.\<close>
  "keyword_in_fields period_name t c p d =
     (str_in (str_lower period_name) t \<or> str_in (str_lower period_name) c \<or>
      str_in (str_lower period_name) p \<or> str_in (str_lower period_name) d)"

fun scan_keywords :: "string list \<Rightarrow> string \<Rightarrow> string \<Rightarrow> string \<Rightarrow> string \<Rightarrow> string option" where
  \<comment> \<open>One \<open>for period_name in ...\<close> loop: the keyword at which it returns, if it does.\<close>
  "scan_keywords [] t c p d = None"
| "scan_keywords (period_name # rest) t c p d =
     (if keyword_in_fields period_name t c p d then Some period_name
      else scan_keywords rest t c p d)"

definition detect_historical_period :: "'a obj_data_scheme \<Rightarrow> string \<times> string" where
  "detect_historical_period obj =
     (let t = str_lower (get_default (title obj) []);
          c = str_lower (get_default (culture obj) []);
          p = str_lower (get_default (period obj) []);
          object_date = str_lower (get_default (objectDate obj) [])
      in case scan_keywords pre_islamic t c p object_date of
           Some period_name \<Rightarrow> (''pre_islamic'', period_name)
         | None \<Rightarrow>
            (case scan_keywords islamic t c p object_date of
               Some period_name \<Rightarrow> (''islamic'', period_name)
             | None \<Rightarrow>
                if list_ex (\<lambda>x. str_in x object_date) [''bc'', ''b.c.'', ''before christ'']
                then (''pre_islamic'', ''Ancient Iran'')
                else if list_ex (\<lambda>x. str_in x object_date)
                          [''islamic'', ''ad'', ''a.d.'', ''hijri'', ''ah'']
                then (''islamic'', ''Islamic Period'')
                else (''unknown'', ''Unknown'')))"

definition empty_obj :: obj_data where
  \<comment> \<open>The document \<open>{}\<close>: no key present.\<close>
  "empty_obj = \<lparr>title = None, culture = None, period = None, objectDate = None,
     objectName = None, classification = None, medium = None, dimensions = None,
     creditLine = None, country = None, region = None, tags = None,
     isPublicDomain = None, primaryImage = None, objectIDs = None\<rparr>"

section \<open>The world outside the program\<close>

text \<open>
  The network and the random generator are inputs of the model. The environment fixes the
  value of the k-th random draw and the reply to the k-th request; the world records what
  the program has done so far: the files it wrote, the requests it sent (with their
  headers), how many random values it drew, how many files it tried to write and how long
  it slept. Whether the k-th attempt to write a file succeeds is the environment's too:
  \<open>open\<close> can raise and leave the path as it was, and the write can raise after
  \<open>open\<close> has created or emptied the file, leaving the bytes written so far.
  Directories are not modelled.
\<close>

type_synonym bytes = "char list"

record request =
  url :: string
  params :: "(string \<times> string) list"
  user_agent :: string
  timeout :: nat

datatype http_result =
    ConnError
      \<comment> \<open>\<open>requests.get\<close> or reading the body raised\<close>
  | Response (status: nat) (content: bytes) (json: "obj_data option")
      \<comment> \<open>status code, body, and what \<open>.json()\<close> returns (\<open>None\<close>: it raises)\<close>

datatype write_result =
    WriteOk
  | OpenFails
      \<comment> \<open>\<open>open(filepath, 'wb')\<close> raises: the path is left as it was\<close>
  | WriteFails nat
      \<comment> \<open>the write raises after this many bytes; the file holds them\<close>

datatype error =
    ValueError string
  | ConnectionError string
  | RequestException
  | ZeroDivisionError
  | OSError

record MetadataRecord =
  m_objectID :: int
  m_title :: string
  m_culture :: string
  m_period :: string
  m_objectDate :: string
  m_objectName :: string
  m_classification :: string
  m_medium :: string
  m_dimensions :: string
  m_creditLine :: string
  m_country :: string
  m_region :: string
  m_tags :: string
  m_isPublicDomain :: bool
  m_primaryImage :: string
  m_era_classification :: string
  m_historical_period :: string
  m_local_path :: string
  m_source :: string

record env =
  rand :: "nat \<Rightarrow> nat"
  http :: "nat \<Rightarrow> request \<Rightarrow> http_result"
  finish_time :: "nat \<Rightarrow> int \<Rightarrow> nat"
    \<comment> \<open>when the pool task of a phase (2 or 3) for an object ID completes\<close>
  json_dump :: "MetadataRecord list \<Rightarrow> bytes"
  csv_dump :: "MetadataRecord list \<Rightarrow> bytes"
  disk :: "nat \<Rightarrow> string \<Rightarrow> bytes \<Rightarrow> write_result"
    \<comment> \<open>what happens to the k-th attempt to write a file (path, data)\<close>

record world =
  files :: "string \<rightharpoonup> bytes"
  requests :: "request list"
  draws :: nat
  slept :: nat
  writes :: nat

definition sleep :: "nat \<Rightarrow> world \<Rightarrow> world" where
  "sleep n w = w\<lparr>slept := slept w + n\<rparr>"

definition write_file :: "env \<Rightarrow> string \<Rightarrow> bytes \<Rightarrow> world \<Rightarrow> bool \<times> world" where
  \<comment> \<open>\<open>with open(filepath, 'wb') as f: f.write(data)\<close>; False when it raises.\<close>
  "write_file e filepath data w =
     (case disk e (writes w) filepath data of
        WriteOk \<Rightarrow>
          (True, w\<lparr>files := (files w)(filepath \<mapsto> data), writes := writes w + 1\<rparr>)
      | OpenFails \<Rightarrow> (False, w\<lparr>writes := writes w + 1\<rparr>)
      | WriteFails n \<Rightarrow>
          (False, w\<lparr>files := (files w)(filepath \<mapsto> take n data), writes := writes w + 1\<rparr>))"

definition http_get :: "env \<Rightarrow> request \<Rightarrow> world \<Rightarrow> http_result \<times> world" where
  "http_get e r w = (http e (length (requests w)) r, w\<lparr>requests := requests w @ [r]\<rparr>)"

definition raise_for_status :: "nat \<Rightarrow> bool" where
  \<comment> \<open>True when \<open>resp.raise_for_status()\<close> raises: a 4xx or 5xx status.\<close>
  "raise_for_status st = (400 \<le> st \<and> st < 600)"

definition random_choice :: "env \<Rightarrow> 'a list \<Rightarrow> world \<Rightarrow> 'a \<times> world" where
  \<comment> \<open>\<open>random.choice\<close> on a non-empty list: one draw, reduced to an index.\<close>
  "random_choice e xs w = (xs ! (rand e (draws w) mod length xs), w\<lparr>draws := draws w + 1\<rparr>)"

definition get_random_user_agent :: "env \<Rightarrow> world \<Rightarrow> string \<times> world" where
  "get_random_user_agent e w = random_choice e user_agents w"

section \<open>download_image\<close>

fun download_attempts ::
  "env \<Rightarrow> string \<Rightarrow> string \<Rightarrow> string \<Rightarrow> nat \<Rightarrow> world \<Rightarrow> bool \<times> world" where
  \<comment> \<open>The \<open>for _ in range(...)\<close> loop with the given number of iterations left.\<close>
  "download_attempts e u headers filepath 0 w = (False, w)"
| "download_attempts e u headers filepath (Suc n) w =
     (case http_get e \<lparr>url = u, params = [], user_agent = headers, timeout = 25\<rparr> w of
        (ConnError, w1) \<Rightarrow> download_attempts e u headers filepath n (sleep 2 w1)
      | (Response st body js, w1) \<Rightarrow>
          if raise_for_status st then download_attempts e u headers filepath n (sleep 2 w1)
          else if length body < 10 * 1024 then download_attempts e u headers filepath n w1
          else (case write_file e filepath body w1 of
                  (True, w2) \<Rightarrow> (True, w2)
                | (False, w2) \<Rightarrow> download_attempts e u headers filepath n (sleep 2 w2)))"

definition download_image :: "env \<Rightarrow> string \<Rightarrow> string \<Rightarrow> world \<Rightarrow> bool \<times> world" where
  "download_image e u filepath w =
     (case get_random_user_agent e w of
        (headers, w1) \<Rightarrow> download_attempts e u headers filepath retries w1)"

section \<open>Sampling\<close>

text \<open>
  The groups dictionary keeps insertion order: a list of sub-period names with their
  object IDs. \<open>random.sample\<close> is the standard library's; it is modelled by its pool
  algorithm, which picks k positions without replacement: the i-th pick is the i-th draw
  reduced to the positions still in the pool, and the last pool entry moves into the place
  of the one picked.
\<close>

type_synonym groups = "(string \<times> int list) list"

fun sample_from_pool :: "(nat \<Rightarrow> nat) \<Rightarrow> nat \<Rightarrow> 'a list \<Rightarrow> nat \<Rightarrow> 'a list" where
  "sample_from_pool rnd d pool 0 = []"
| "sample_from_pool rnd d pool (Suc k) =
     (let j = rnd d mod length pool
      in pool ! j # sample_from_pool rnd (Suc d) (butlast (pool[j := last pool])) k)"

definition random_sample :: "env \<Rightarrow> 'a list \<Rightarrow> nat \<Rightarrow> world \<Rightarrow> (error + 'a list) \<times> world" where
  "random_sample e population k w =
     (if length population < k
      then (Inl (ValueError ''Sample larger than population or is negative''), w)
      else (Inr (sample_from_pool (rand e) (draws w) population k), w\<lparr>draws := draws w + k\<rparr>))"

definition min_count :: "groups \<Rightarrow> error + nat" where
  \<comment> \<open>\<open>min(len(ids) for ids in groups.values() if ids)\<close>; \<open>min\<close> of nothing raises.\<close>
  "min_count groups =
     (let sizes = map length (filter (\<lambda>ids. ids \<noteq> []) (map snd groups))
      in if sizes = [] then Inl (ValueError ''min() arg is an empty sequence'')
         else Inr (min_list sizes))"

definition target_per_group :: "nat \<Rightarrow> groups \<Rightarrow> error + nat" where
  \<comment> \<open>\<open>max(1, min(min_count, CONFIG['max_images'] // len(groups)))\<close>\<close>
  "target_per_group mx groups =
     (case min_count groups of
        Inl err \<Rightarrow> Inl err
      | Inr mc \<Rightarrow>
          if length groups = 0 then Inl ZeroDivisionError
          else Inr (max 1 (min mc (mx div length groups))))"

fun sample_loop ::
  "env \<Rightarrow> nat \<Rightarrow> groups \<Rightarrow> int list \<Rightarrow> world \<Rightarrow> (error + int list) \<times> world" where
  \<comment> \<open>\<open>for pname, ids in groups.items()\<close>, with the list \<open>sampled\<close> built so far.\<close>
  "sample_loop e tgt [] sampled w = (Inr sampled, w)"
| "sample_loop e tgt ((pname, ids) # rest) sampled w =
     (if ids = [] then sample_loop e tgt rest sampled w
      else if length ids \<le> tgt then sample_loop e tgt rest (sampled @ ids) w
      else (case random_sample e ids tgt w of
              (Inl err, w1) \<Rightarrow> (Inl err, w1)
            | (Inr s, w1) \<Rightarrow> sample_loop e tgt rest (sampled @ s) w1))"

definition sample_groups ::
  "env \<Rightarrow> nat \<Rightarrow> groups \<Rightarrow> world \<Rightarrow> (error + int list) \<times> world" where
  \<comment> \<open>Lines 166 to 178 of the source, for a cap \<open>mx\<close> on the number of images.\<close>
  "sample_groups e mx groups w =
     (case target_per_group mx groups of
        Inl err \<Rightarrow> (Inl err, w)
      | Inr tgt \<Rightarrow>
          (case sample_loop e tgt groups [] w of
             (Inl err, w1) \<Rightarrow> (Inl err, w1)
           | (Inr sampled, w1) \<Rightarrow> (Inr (take mx sampled), w1)))"

section \<open>process_pottery_object\<close>

function str_nat :: "nat \<Rightarrow> string" where
  \<comment> \<open>decimal digits of a natural number\<close>
  "str_nat n = (if n < 10 then [char_of (48 + n)]
                else str_nat (n div 10) @ [char_of (48 + n mod 10)])"
  by pat_completeness auto
termination
  by (relation "measure id") auto

definition str_int :: "int \<Rightarrow> string" where
  \<comment> \<open>\<open>f"{obj_id}"\<close>\<close>
  "str_int i = (if i < 0 then CHR ''-'' # str_nat (nat (- i)) else str_nat (nat i))"

definition path_join :: "string \<Rightarrow> string \<Rightarrow> string" where
  \<comment> \<open>\<open>os.path.join\<close> of two components, on POSIX\<close>
  "path_join a b =
     (if b \<noteq> [] \<and> hd b = CHR ''/'' then b
      else if a = [] \<or> last a = CHR ''/'' then a @ b
      else a @ ''/'' @ b)"

definition replace_spaces :: "string \<Rightarrow> string" where
  \<comment> \<open>\<open>pname.replace(' ', '_')\<close>\<close>
  "replace_spaces s = map (\<lambda>c. if c = CHR '' '' then CHR ''_'' else c) s"

fun str_join :: "string \<Rightarrow> string list \<Rightarrow> string" where
  \<comment> \<open>\<open>sep.join(xs)\<close>\<close>
  "str_join sep [] = []"
| "str_join sep [x] = x"
| "str_join sep (x # y # ys) = x @ sep @ str_join sep (y # ys)"

definition object_url :: "int \<Rightarrow> string" where
  "object_url obj_id =
     ''https://collectionapi.metmuseum.org/public/collection/v1/objects/'' @ str_int obj_id"

definition process_pottery_object ::
  "env \<Rightarrow> int \<Rightarrow> string \<Rightarrow> world \<Rightarrow> (error + MetadataRecord) \<times> world" where
  "process_pottery_object e obj_id image_dir w =
     (case get_random_user_agent e w of (ua, w1) \<Rightarrow>
      case http_get e \<lparr>url = object_url obj_id, params = [], user_agent = ua, timeout = 25\<rparr> w1 of
        (ConnError, w2) \<Rightarrow> (Inl RequestException, w2)
      | (Response st body None, w2) \<Rightarrow> (Inl RequestException, w2)
      | (Response st body (Some data), w2) \<Rightarrow>
          if get_default (primaryImage data) [] = []
          then (Inl (ValueError ''No primary image available''), w2)
          else
            (case detect_historical_period data of (era, pname) \<Rightarrow>
             let folder = path_join (path_join image_dir era) (replace_spaces pname);
                 img_name = str_int obj_id @ ''.jpg'';
                 img_path = path_join folder img_name
             in case download_image e (get_default (primaryImage data) []) img_path w2 of
                  (False, w3) \<Rightarrow> (Inl (ConnectionError ''Image download failed''), w3)
                | (True, w3) \<Rightarrow>
                    (Inr \<lparr>m_objectID = obj_id,
                          m_title = normalize_text (title data),
                          m_culture = normalize_text (culture data),
                          m_period = normalize_text (period data),
                          m_objectDate = normalize_text (objectDate data),
                          m_objectName = normalize_text (objectName data),
                          m_classification = normalize_text (classification data),
                          m_medium = normalize_text (medium data),
                          m_dimensions = normalize_text (dimensions data),
                          m_creditLine = normalize_text (creditLine data),
                          m_country = normalize_text (country data),
                          m_region = normalize_text (region data),
                          m_tags = str_join '', '' (get_default (tags data) []),
                          m_isPublicDomain = get_default (isPublicDomain data) False,
                          m_primaryImage = get_default (primaryImage data) [],
                          m_era_classification = era,
                          m_historical_period = pname,
                          m_local_path = img_path,
                          m_source = ''MET''\<rparr>, w3)))"

section \<open>download_iran_pottery\<close>

text \<open>
  The two thread pools are modelled by running their tasks one at a time, in the order in
  which they complete; that order is the environment's (\<open>finish_time\<close>), and since the
  replies and the draws are arbitrary too, each task can meet any reply. Console output is
  left out.
\<close>

definition dataset_path :: string where
  "dataset_path = ''./iran_pottery_dataset''"

definition search_queries :: "string list" where
  "search_queries =
     [''Persian pottery'', ''Iranian ceramics'', ''Ancient Iranian pottery'',
      ''Islamic pottery Iran'', ''Pre-Islamic ceramics Iran'',
      ''Sialk pottery'', ''Elam pottery'', ''Achaemenid ceramics'',
      ''Parthian pottery'', ''Sasanian ceramics'', ''Chogha Zanbil pottery'',
      ''Haft Tepe ceramics'', ''Kuh-e Khwaja pottery'', ''Arg-e Bam ceramics'',
      ''Safavid pottery'', ''Qajar ceramics'']"

definition set_update :: "int list \<Rightarrow> int list \<Rightarrow> int list" where
  \<comment> \<open>\<open>all_ids.update(ids)\<close> on a set kept as a list without repetitions\<close>
  "set_update all_ids ids = all_ids @ filter (\<lambda>x. x \<notin> set all_ids) (remdups ids)"

fun search_loop :: "env \<Rightarrow> string list \<Rightarrow> int list \<Rightarrow> world \<Rightarrow> int list \<times> world" where
  \<comment> \<open>Step 1: \<open>for q in search_queries\<close>; a failing query skips its sleep as well.\<close>
  "search_loop e [] all_ids w = (all_ids, w)"
| "search_loop e (q # qs) all_ids w =
     (case get_random_user_agent e w of (ua, w1) \<Rightarrow>
      case http_get e
             \<lparr>url = ''https://collectionapi.metmuseum.org/public/collection/v1/search'',
              params = [(''q'', q), (''hasImages'', ''true'')],
              user_agent = ua, timeout = 20\<rparr> w1 of
        (ConnError, w2) \<Rightarrow> search_loop e qs all_ids w2
      | (Response st body js, w2) \<Rightarrow>
          if raise_for_status st then search_loop e qs all_ids w2
          else (case js of
                  None \<Rightarrow> search_loop e qs all_ids w2
                | Some data \<Rightarrow>
                    search_loop e qs (set_update all_ids (get_default (objectIDs data) []))
                      (sleep 1 w2)))"

definition fetch_and_group :: "env \<Rightarrow> int \<Rightarrow> world \<Rightarrow> (string \<times> int) option \<times> world" where
  "fetch_and_group e obj_id w =
     (case get_random_user_agent e w of (ua, w1) \<Rightarrow>
      case http_get e \<lparr>url = object_url obj_id, params = [], user_agent = ua, timeout = 10\<rparr> w1 of
        (ConnError, w2) \<Rightarrow> (None, w2)
      | (Response st body None, w2) \<Rightarrow> (None, w2)
      | (Response st body (Some obj), w2) \<Rightarrow>
          (case detect_historical_period obj of (era, pname) \<Rightarrow> (Some (pname, obj_id), w2)))"

fun groups_append :: "groups \<Rightarrow> string \<Rightarrow> int \<Rightarrow> groups" where
  \<comment> \<open>\<open>groups.setdefault(pname, []).append(obj_id)\<close>\<close>
  "groups_append [] pname obj_id = [(pname, [obj_id])]"
| "groups_append ((k, ids) # rest) pname obj_id =
     (if k = pname then (k, ids @ [obj_id]) # rest
      else (k, ids) # groups_append rest pname obj_id)"

fun group_loop :: "env \<Rightarrow> int list \<Rightarrow> groups \<Rightarrow> world \<Rightarrow> groups \<times> world" where
  \<comment> \<open>Step 2, over the object IDs in the order in which their tasks complete.\<close>
  "group_loop e [] groups w = (groups, w)"
| "group_loop e (obj_id # rest) groups w =
     (case fetch_and_group e obj_id w of
        (None, w1) \<Rightarrow> group_loop e rest groups w1
      | (Some (pname, i), w1) \<Rightarrow> group_loop e rest (groups_append groups pname i) w1)"

definition process_and_download ::
  "env \<Rightarrow> int \<Rightarrow> string \<Rightarrow> world \<Rightarrow> MetadataRecord option \<times> world" where
  "process_and_download e obj_id image_dir w =
     (case process_pottery_object e obj_id image_dir w of
        (Inl err, w1) \<Rightarrow> (None, w1)
      | (Inr r, w1) \<Rightarrow> (Some r, w1))"

fun download_loop ::
  "env \<Rightarrow> int list \<Rightarrow> string \<Rightarrow> MetadataRecord list \<Rightarrow> world \<Rightarrow> MetadataRecord list \<times> world" where
  \<comment> \<open>Step 3, over the sampled IDs in the order in which their tasks complete.\<close>
  "download_loop e [] image_dir metadata w = (metadata, w)"
| "download_loop e (obj_id # rest) image_dir metadata w =
     (case process_and_download e obj_id image_dir w of
        (None, w1) \<Rightarrow> download_loop e rest image_dir metadata w1
      | (Some r, w1) \<Rightarrow> download_loop e rest image_dir (metadata @ [r]) w1)"

definition save_metadata :: "env \<Rightarrow> MetadataRecord list \<Rightarrow> world \<Rightarrow> error option \<times> world" where
  \<comment> \<open>A write that raises ends the function with that exception.\<close>
  "save_metadata e metadata w =
     (case write_file e (path_join dataset_path ''iran_pottery_metadata.json'')
             (json_dump e metadata) w of
        (False, w1) \<Rightarrow> (Some OSError, w1)
      | (True, w1) \<Rightarrow>
          if metadata \<noteq> []
          then (case write_file e (path_join dataset_path ''iran_pottery_metadata.csv'')
                       (csv_dump e metadata) w1 of
                  (False, w2) \<Rightarrow> (Some OSError, w2)
                | (True, w2) \<Rightarrow> (None, w2))
          else (None, w1))"

definition grouping_phase :: "env \<Rightarrow> world \<Rightarrow> groups \<times> world" where
  \<comment> \<open>Steps 1 and 2 of \<open>download_iran_pottery\<close>: the groups it has built at line 165.\<close>
  "grouping_phase e w =
     (case search_loop e search_queries [] w of (all_ids, w1) \<Rightarrow>
      group_loop e (sort_key (finish_time e 2) all_ids) [] w1)"

definition download_iran_pottery :: "env \<Rightarrow> world \<Rightarrow> error option \<times> world" where
  \<comment> \<open>The result is the exception that ends the run, if one does.\<close>
  "download_iran_pottery e w =
     (let image_dir = path_join dataset_path ''images'' in
      case grouping_phase e w of (groups, w2) \<Rightarrow>
      case sample_groups e max_images groups w2 of
        (Inl err, w3) \<Rightarrow> (Some err, w3)
      | (Inr sampled, w3) \<Rightarrow>
          (case download_loop e (sort_key (finish_time e 3) sampled) image_dir [] w3 of
             (metadata, w4) \<Rightarrow> save_metadata e metadata w4))"

section \<open>Notions for stating the properties\<close>

subsection \<open>Whitespace in a text, for stating the properties of normalize_text\<close>

text \<open>
  A text is single-spaced when every whitespace character in it is a space that is not
  followed by another whitespace character.
\<close>

fun single_spaced :: "string \<Rightarrow> bool" where
  "single_spaced [] = True"
| "single_spaced [c] = (is_space c \<longrightarrow> c = CHR '' '')"
| "single_spaced (c # d # cs) =
     ((is_space c \<longrightarrow> c = CHR '' '' \<and> \<not> is_space d) \<and> single_spaced (d # cs))"

subsection \<open>The classifier's conditions, for stating its properties\<close>

text \<open>
  A keyword hits a record when its lower-cased form is a substring of one of the four
  lower-cased fields; \<open>date_has\<close> is the substring test of the date fallback.
\<close>

definition lowered_fields :: "'a obj_data_scheme \<Rightarrow> string list" where
  "lowered_fields obj = map (\<lambda>f. str_lower (get_default f []))
     [title obj, culture obj, period obj, objectDate obj]"

definition keyword_hit :: "string \<Rightarrow> 'a obj_data_scheme \<Rightarrow> bool" where
  "keyword_hit k obj = (\<exists>f \<in> set (lowered_fields obj). sublist (str_lower k) f)"

definition date_has :: "string \<Rightarrow> 'a obj_data_scheme \<Rightarrow> bool" where
  "date_has x obj = sublist x (str_lower (get_default (objectDate obj) []))"

definition obj_400_bc :: obj_data where
  "obj_400_bc = empty_obj\<lparr>title := Some [], culture := Some [], period := Some [],
     objectDate := Some ''400 BC''\<rparr>"

definition obj_all_empty :: obj_data where
  "obj_all_empty = empty_obj\<lparr>title := Some [], culture := Some [], period := Some [],
     objectDate := Some []\<rparr>"

definition obj_safavid_qajar :: obj_data where
  "obj_safavid_qajar = empty_obj\<lparr>title := Some ''Qajar copy of a Safavid bowl''\<rparr>"

definition obj_achaemenid :: obj_data where
  "obj_achaemenid = empty_obj\<lparr>title := Some ''Bowl'', culture := Some ''Achaemenid'',
     objectDate := Some ''Islamic period''\<rparr>"

subsection \<open>Attempts of download_image, for stating its properties\<close>

definition image_request :: "string \<Rightarrow> string \<Rightarrow> request" where
  \<comment> \<open>The request of one attempt of \<open>download_image\<close>.\<close>
  "image_request u h = \<lparr>url = u, params = [], user_agent = h, timeout = 25\<rparr>"

definition attempt_fails :: "http_result \<Rightarrow> bool" where
  \<comment> \<open>An attempt fails on the side of the network when the request raises, the status is
      an error, or the payload is below 10 KiB.\<close>
  "attempt_fails r = (case r of ConnError \<Rightarrow> True
      | Response st body js \<Rightarrow> raise_for_status st \<or> length body < 10240)"

definition attempt_reply :: "env \<Rightarrow> world \<Rightarrow> string \<Rightarrow> string \<Rightarrow> nat \<Rightarrow> http_result" where
  \<comment> \<open>the reply to the i-th attempt of a call that starts in world \<open>w\<close>\<close>
  "attempt_reply e w u h i = http e (length (requests w) + i) (image_request u h)"

definition write_index :: "env \<Rightarrow> world \<Rightarrow> string \<Rightarrow> string \<Rightarrow> nat \<Rightarrow> nat" where
  \<comment> \<open>the number of the write that the i-th attempt makes if it comes to writing: one
      write for each earlier attempt whose reply was good\<close>
  "write_index e w u h i =
     writes w + length (filter (\<lambda>k. \<not> attempt_fails (attempt_reply e w u h k)) [0..<i])"

definition attempt_lost :: "env \<Rightarrow> world \<Rightarrow> string \<Rightarrow> string \<Rightarrow> string \<Rightarrow> nat \<Rightarrow> bool" where
  \<comment> \<open>The i-th attempt fails: on the side of the network, or because writing the file
      raises.\<close>
  "attempt_lost e w u h fp i =
     (attempt_fails (attempt_reply e w u h i) \<or>
      disk e (write_index e w u h i) fp (content (attempt_reply e w u h i)) \<noteq> WriteOk)"

definition next_world :: "env \<Rightarrow> string \<Rightarrow> string \<Rightarrow> string \<Rightarrow> world \<Rightarrow> world" where
  \<comment> \<open>the world after one attempt that fails\<close>
  "next_world e u h fp w =
     (let r = attempt_reply e w u h 0;
          w1 = w\<lparr>requests := requests w @ [image_request u h]\<rparr>
      in if attempt_fails r
         then (if r = ConnError \<or> raise_for_status (status r) then sleep 2 w1 else w1)
         else sleep 2 (snd (write_file e fp (content r) w1)))"

definition fresh_user_agents :: "env \<Rightarrow> world \<Rightarrow> nat \<Rightarrow> string list" where
  \<comment> \<open>The headers of n attempts if each attempt drew its own: the i-th attempt takes the
      i-th draw from the current position.\<close>
  "fresh_user_agents e w n =
     map (\<lambda>i. user_agents ! (rand e (draws w + i) mod length user_agents)) [0..<n]"

definition world0 :: world where
  "world0 = \<lparr>files = Map.empty, requests = [], draws = 0, slept = 0, writes = 0\<rparr>"

definition env_serving :: "http_result \<Rightarrow> env" where
  \<comment> \<open>An environment whose k-th draw is k, that answers every request alike and whose
      disk takes every write.\<close>
  "env_serving r = \<lparr>rand = (\<lambda>k. k), http = (\<lambda>k q. r), finish_time = (\<lambda>ph i. 0),
     json_dump = (\<lambda>ms. []), csv_dump = (\<lambda>ms. []), disk = (\<lambda>k p d. WriteOk)\<rparr>"

definition env_bad_disk :: "http_result \<Rightarrow> write_result \<Rightarrow> env" where
  \<comment> \<open>The same, with a disk on which every write ends alike.\<close>
  "env_bad_disk r wr = (env_serving r)\<lparr>disk := (\<lambda>k p d. wr)\<rparr>"

subsection \<open>Requests, paths and fields of process_pottery_object, for stating its properties\<close>

definition object_request :: "int \<Rightarrow> string \<Rightarrow> request" where
  "object_request obj_id ua = \<lparr>url = object_url obj_id, params = [], user_agent = ua, timeout = 25\<rparr>"

definition image_path :: "string \<Rightarrow> int \<Rightarrow> obj_data \<Rightarrow> string" where
  "image_path image_dir obj_id data =
     path_join (path_join (path_join image_dir (fst (detect_historical_period data)))
                  (replace_spaces (snd (detect_historical_period data))))
       (str_int obj_id @ ''.jpg'')"

definition text_keys :: "obj_data \<Rightarrow> string option list" where
  "text_keys data = [title data, culture data, period data, objectDate data, objectName data,
     classification data, medium data, dimensions data, creditLine data, country data,
     region data]"

definition text_values :: "MetadataRecord \<Rightarrow> string list" where
  "text_values r = [m_title r, m_culture r, m_period r, m_objectDate r, m_objectName r,
     m_classification r, m_medium r, m_dimensions r, m_creditLine r, m_country r, m_region r]"

definition obj_bowl :: obj_data where
  "obj_bowl = empty_obj\<lparr>title := Some ''  Safavid   bowl '',
     primaryImage := Some ''http://img/1.jpg'', tags := Some [''Bowls'', ''Ceramics'']\<rparr>"

definition env_object_then_image :: env where
  "env_object_then_image = \<lparr>rand = (\<lambda>k. k),
     http = (\<lambda>k q. if k = 0 then Response 200 [] (Some obj_bowl)
                    else Response 200 (replicate 10240 CHR ''x'') None),
     finish_time = (\<lambda>ph i. 0), json_dump = (\<lambda>ms. []), csv_dump = (\<lambda>ms. []),
     disk = (\<lambda>k p d. WriteOk)\<rparr>"

definition obj_long_title :: obj_data where
  \<comment> \<open>an object whose title has 499 letters, a space and one more letter\<close>
  "obj_long_title = empty_obj\<lparr>title := Some (replicate 499 CHR ''a'' @ '' b''),
     primaryImage := Some ''http://img/1.jpg''\<rparr>"

definition env_long_title :: env where
  \<comment> \<open>The first request is answered with that object, the later ones with an image.\<close>
  "env_long_title = env_object_then_image
     \<lparr>http := (\<lambda>k q. if k = 0 then Response 200 [] (Some obj_long_title)
                       else Response 200 (replicate 10240 CHR ''x'') None)\<rparr>"

subsection \<open>Failing fetches, for stating the properties of the run\<close>

definition fetch_fails :: "http_result \<Rightarrow> bool" where
  \<comment> \<open>The fetch of an object's JSON raises: the request fails or the body does not parse.\<close>
  "fetch_fails r = (case r of ConnError \<Rightarrow> True | Response st body js \<Rightarrow> js = None)"

definition env_search_only :: env where
  \<comment> \<open>The sixteen searches each return the IDs 1 and 2; every later request fails.\<close>
  "env_search_only = \<lparr>rand = (\<lambda>k. k),
     http = (\<lambda>k q. if k < 16 then Response 200 [] (Some (empty_obj\<lparr>objectIDs := Some [1, 2]\<rparr>))
                    else ConnError),
     finish_time = (\<lambda>ph i. 0), json_dump = (\<lambda>ms. []), csv_dump = (\<lambda>ms. []),
     disk = (\<lambda>k p d. WriteOk)\<rparr>"

subsection \<open>Selections, for stating the properties of the sampling\<close>

definition selected_from :: "env \<Rightarrow> nat \<Rightarrow> int list \<Rightarrow> int list \<Rightarrow> bool" where
  \<comment> \<open>\<open>c\<close> is what a group \<open>ids\<close> contributes under the target \<open>tgt\<close>: all of a group
      of at most \<open>tgt\<close> members, and otherwise \<open>tgt\<close> members picked from the pool by
      random draws, none of them twice.\<close>
  "selected_from e tgt ids c =
     ((length ids \<le> tgt \<longrightarrow> c = ids) \<and>
      (tgt < length ids \<longrightarrow>
         length c = tgt \<and> mset c \<subseteq># mset ids \<and>
         (\<exists>d. c = sample_from_pool (rand e) d ids tgt)))"





definition groups_example :: groups where
  "groups_example = [(''Safavid'', [1, 2, 3]), (''Qajar'', [4]), (''Unknown'', [])]"

section \<open>Properties of normalize_text\<close>

lemma length_normalize_text: "length (normalize_text text) \<le> 500"
  by (simp add: normalize_text_def split: option.split)

text \<open>
  What holds of every output: it is single-spaced and does not start with whitespace; it
  can end with whitespace only when the cut at 500 characters shortened it; where nothing
  is cut, a second pass changes nothing, and a second pass always reaches a text that
  further passes leave alone.
\<close>

lemma is_space_space: "is_space CHR '' ''"
  by (simp add: is_space_def)

lemma collapse_ws_nonspace_hd:
  "t \<noteq> [] \<Longrightarrow> \<not> is_space (hd t) \<Longrightarrow> collapse_ws t \<noteq> [] \<and> hd (collapse_ws t) = hd t"
  by (cases t) simp_all

lemma dropWhile_nonspace_hd:
  "dropWhile is_space cs \<noteq> [] \<Longrightarrow> \<not> is_space (hd (dropWhile is_space cs))"
  by (rule hd_dropWhile)

lemma single_spaced_Cons:
  "single_spaced (c # t) \<longleftrightarrow>
     (is_space c \<longrightarrow> c = CHR '' '' \<and> (t \<noteq> [] \<longrightarrow> \<not> is_space (hd t))) \<and> single_spaced t"
  by (cases t) auto

lemma single_spaced_collapse_ws: "single_spaced (collapse_ws s)"
proof (induction s rule: collapse_ws.induct)
  case 1
  show ?case by simp
next
  case (2 c cs)
  show ?case
  proof (cases "is_space c")
    case True
    let ?t = "dropWhile is_space cs"
    have "collapse_ws ?t \<noteq> [] \<longrightarrow> \<not> is_space (hd (collapse_ws ?t))"
    proof
      assume ne: "collapse_ws ?t \<noteq> []"
      have "?t \<noteq> []"
      proof
        assume "?t = []"
        then have "collapse_ws ?t = []" by (simp only: collapse_ws.simps)
        with ne show False by simp
      qed
      with dropWhile_nonspace_hd have "\<not> is_space (hd ?t)" by blast
      with collapse_ws_nonspace_hd[OF \<open>?t \<noteq> []\<close>] show "\<not> is_space (hd (collapse_ws ?t))" by simp
    qed
    with True 2 show ?thesis by (simp add: single_spaced_Cons)
  next
    case False
    with 2 show ?thesis by (simp add: single_spaced_Cons)
  qed
qed

lemma single_spaced_append:
  "single_spaced (xs @ ys) \<Longrightarrow> single_spaced xs \<and> single_spaced ys"
proof (induction xs)
  case Nil
  then show ?case by simp
next
  case (Cons x xs)
  then show ?case by (cases xs) (auto simp: single_spaced_Cons)
qed

lemma strip_decompose: "\<exists>pre post. s = pre @ strip s @ post"
proof -
  let ?d = "dropWhile is_space s"
  have "s = takeWhile is_space s @ ?d" by simp
  moreover have "?d = strip s @ rev (takeWhile is_space (rev ?d))"
    unfolding strip_def by (metis rev_append rev_rev_ident takeWhile_dropWhile_id)
  ultimately show ?thesis by (metis append.assoc)
qed

lemma single_spaced_strip: "single_spaced s \<Longrightarrow> single_spaced (strip s)"
  using strip_decompose[of s] single_spaced_append by metis

lemma single_spaced_take: "single_spaced s \<Longrightarrow> single_spaced (take n s)"
  using single_spaced_append[of "take n s" "drop n s"] by simp

lemma single_spaced_normalize_text: "single_spaced (normalize_text text)"
  by (auto simp: normalize_text_def single_spaced_collapse_ws single_spaced_strip single_spaced_take
      split: option.split)

lemma strip_hd: "strip s \<noteq> [] \<Longrightarrow> \<not> is_space (hd (strip s))"
proof -
  assume ne: "strip s \<noteq> []"
  let ?d = "dropWhile is_space s"
  have d: "?d = strip s @ rev (takeWhile is_space (rev ?d))"
    unfolding strip_def by (metis rev_append rev_rev_ident takeWhile_dropWhile_id)
  have "?d \<noteq> []"
  proof
    assume "?d = []"
    then have "strip s = []" by (simp only: strip_def rev.simps dropWhile.simps)
    with ne show False by simp
  qed
  then have "\<not> is_space (hd ?d)" by (rule hd_dropWhile)
  moreover from d ne have "hd ?d = hd (strip s)" by (metis hd_append2)
  ultimately show ?thesis by simp
qed

lemma strip_last: "strip s \<noteq> [] \<Longrightarrow> \<not> is_space (last (strip s))"
proof -
  assume ne: "strip s \<noteq> []"
  let ?r = "dropWhile is_space (rev (dropWhile is_space s))"
  from ne have "?r \<noteq> []" by (simp add: strip_def)
  then have "\<not> is_space (hd ?r)" by (rule hd_dropWhile)
  moreover have "last (strip s) = hd ?r" using \<open>?r \<noteq> []\<close> by (simp add: strip_def last_rev)
  ultimately show ?thesis by simp
qed

lemma normalize_text_no_leading_space:
  "normalize_text text \<noteq> [] \<Longrightarrow> \<not> is_space (hd (normalize_text text))"
  by (auto simp: normalize_text_def strip_hd split: option.splits if_splits)

lemma normalize_text_trailing_space_only_when_cut:
  "normalize_text (Some s) \<noteq> [] \<Longrightarrow> is_space (last (normalize_text (Some s))) \<Longrightarrow>
   500 < length (strip (collapse_ws s))"
proof (rule ccontr)
  assume ne: "normalize_text (Some s) \<noteq> []" and sp: "is_space (last (normalize_text (Some s)))"
    and "\<not> 500 < length (strip (collapse_ws s))"
  then have "normalize_text (Some s) = strip (collapse_ws s)"
    by (auto simp: normalize_text_def split: if_splits)
  with ne sp strip_last show False by metis
qed


lemma collapse_ws_single_spaced: "single_spaced u \<Longrightarrow> collapse_ws u = u"
proof (induction u)
  case Nil
  show ?case by simp
next
  case (Cons c t)
  from Cons.prems have t: "single_spaced t" by (simp add: single_spaced_Cons)
  show ?case
  proof (cases "is_space c")
    case True
    with Cons.prems have c: "c = CHR '' ''" and h: "t \<noteq> [] \<longrightarrow> \<not> is_space (hd t)"
      by (simp_all add: single_spaced_Cons)
    from h have "dropWhile is_space t = t" by (cases t) simp_all
    with True c Cons.IH[OF t] show ?thesis by simp
  next
    case False
    with Cons.IH[OF t] show ?thesis by simp
  qed
qed

lemma strip_trimmed:
  assumes "u \<noteq> [] \<longrightarrow> \<not> is_space (hd u) \<and> \<not> is_space (last u)"
  shows "strip u = u"
proof (cases u)
  case Nil
  then show ?thesis by (simp add: strip_def)
next
  case (Cons c t)
  with assms have h: "\<not> is_space (hd u)" and l: "\<not> is_space (last u)" by simp_all
  from h Cons have "dropWhile is_space u = u" by simp
  moreover have "dropWhile is_space (rev u) = rev u"
  proof -
    from Cons have "rev u \<noteq> []" by simp
    then obtain a r where r: "rev u = a # r" by (cases "rev u") auto
    then have "a = hd (rev u)" by simp
    also have "\<dots> = last u" using Cons by (simp add: hd_rev)
    finally have "\<not> is_space a" using l by simp
    with r show ?thesis by simp
  qed
  ultimately show ?thesis by (simp add: strip_def)
qed

lemma length_strip: "length (strip s) \<le> length s"
proof -
  from strip_decompose[of s] obtain pre post where "s = pre @ strip s @ post" by blast
  then have "length s = length pre + length (strip s) + length post" by (metis length_append add.assoc)
  then show ?thesis by simp
qed

lemma normalize_text_fixed:
  assumes "single_spaced u" "length u \<le> 500"
    and "u \<noteq> [] \<longrightarrow> \<not> is_space (hd u) \<and> \<not> is_space (last u)"
  shows "normalize_text (Some u) = u"
  using assms by (simp add: normalize_text_def collapse_ws_single_spaced strip_trimmed)

lemma normalize_text_idempotent_uncut:
  assumes "length (strip (collapse_ws s)) \<le> 500"
  shows "normalize_text (Some (normalize_text (Some s))) = normalize_text (Some s)"
proof (cases "s = []")
  case True
  then show ?thesis by (simp add: normalize_text_def)
next
  case False
  let ?t = "strip (collapse_ws s)"
  from False assms have n: "normalize_text (Some s) = ?t" by (simp add: normalize_text_def)
  have "single_spaced ?t" by (simp add: single_spaced_collapse_ws single_spaced_strip)
  moreover have "?t \<noteq> [] \<longrightarrow> \<not> is_space (hd ?t) \<and> \<not> is_space (last ?t)"
    using strip_hd strip_last by blast
  ultimately show ?thesis unfolding n using assms by (intro normalize_text_fixed)
qed

lemma normalize_text_second_pass_fixed:
  "normalize_text (Some (normalize_text (Some (normalize_text (Some s)))))
     = normalize_text (Some (normalize_text (Some s)))"
proof -
  let ?n = "normalize_text (Some s)"
  have ss: "single_spaced ?n" by (rule single_spaced_normalize_text)
  have len: "length ?n \<le> 500" by (simp add: normalize_text_def)
  have c: "collapse_ws ?n = ?n" using ss by (rule collapse_ws_single_spaced)
  have "length (strip (collapse_ws ?n)) \<le> 500"
    unfolding c using length_strip[of ?n] len by simp
  then show ?thesis by (rule normalize_text_idempotent_uncut)
qed

lemma normalize_text_cut:
  "normalize_text (Some (replicate 499 CHR ''a'' @ '' b'')) = replicate 499 CHR ''a'' @ '' ''"
  by code_simp

text \<open>
  Claim C1 (normalize_text is idempotent, and its output has at most 500 characters, single
  spaces inside and no whitespace at either end), at a text of 499 letters, a space and one
  more letter: the strip comes before the cut at 500 characters, so the cut leaves the
  space at the end of the output, and a second pass removes it.
\<close>

theorem normalize_text_cut_after_strip:
  "normalize_text (Some (replicate 499 CHR ''a'' @ '' b'')) = replicate 499 CHR ''a'' @ '' '' \<and>
   normalize_text (Some (normalize_text (Some (replicate 499 CHR ''a'' @ '' b''))))
     = replicate 499 CHR ''a''"
  by code_simp

section \<open>Properties of the period classifier\<close>

lemma scan_keywords_find:
  "scan_keywords ks t c p d = find (\<lambda>k. keyword_in_fields k t c p d) ks"
  by (induction ks) simp_all

lemma keyword_hit_fields:
  "keyword_in_fields k (str_lower (get_default (title obj) [])) (str_lower (get_default (culture obj) []))
     (str_lower (get_default (period obj) [])) (str_lower (get_default (objectDate obj) []))
   = keyword_hit k obj"
  by (simp add: keyword_in_fields_def keyword_hit_def lowered_fields_def str_in_def)

lemma detect_find:
  "detect_historical_period obj =
     (case find (\<lambda>k. keyword_hit k obj) pre_islamic of
        Some k \<Rightarrow> (''pre_islamic'', k)
      | None \<Rightarrow>
         (case find (\<lambda>k. keyword_hit k obj) islamic of
            Some k \<Rightarrow> (''islamic'', k)
          | None \<Rightarrow>
             if date_has ''bc'' obj \<or> date_has ''b.c.'' obj \<or> date_has ''before christ'' obj
             then (''pre_islamic'', ''Ancient Iran'')
             else if date_has ''islamic'' obj \<or> date_has ''ad'' obj \<or> date_has ''a.d.'' obj
                     \<or> date_has ''hijri'' obj \<or> date_has ''ah'' obj
             then (''islamic'', ''Islamic Period'')
             else (''unknown'', ''Unknown'')))"
  unfolding detect_historical_period_def Let_def scan_keywords_find keyword_hit_fields
  by (simp add: date_has_def str_in_def)

lemmas classifier_eval =
  detect_historical_period_def empty_obj_def get_default_def str_lower_def lower_char_def
  pre_islamic_def islamic_def keyword_in_fields_def str_in_def sublist_code char_of_def bit_0
  keyword_hit_def lowered_fields_def date_has_def

text \<open>
  Claim C2. The classifier returns the first keyword of the pre-Islamic list that hits the
  record, tagged \<open>pre_islamic\<close>; failing that, the first keyword of the Islamic list
  that hits, tagged \<open>islamic\<close>; failing that, it looks for "bc", "b.c." or
  "before christ" in the lower-cased date (Ancient Iran), then for "islamic", "ad", "a.d.",
  "hijri" or "ah" (Islamic Period), and otherwise answers unknown. A record with empty
  title, culture and period dated "400 BC" is pre-Islamic, Ancient Iran; a record whose
  four fields are empty or absent is unknown.
\<close>

theorem detect_historical_period_algorithm:
  fixes obj :: obj_data
  shows "detect_historical_period obj =
     (case find (\<lambda>k. keyword_hit k obj) pre_islamic of
        Some k \<Rightarrow> (''pre_islamic'', k)
      | None \<Rightarrow>
         (case find (\<lambda>k. keyword_hit k obj) islamic of
            Some k \<Rightarrow> (''islamic'', k)
          | None \<Rightarrow>
             if date_has ''bc'' obj \<or> date_has ''b.c.'' obj \<or> date_has ''before christ'' obj
             then (''pre_islamic'', ''Ancient Iran'')
             else if date_has ''islamic'' obj \<or> date_has ''ad'' obj \<or> date_has ''a.d.'' obj
                     \<or> date_has ''hijri'' obj \<or> date_has ''ah'' obj
             then (''islamic'', ''Islamic Period'')
             else (''unknown'', ''Unknown'')))
   \<and> detect_historical_period obj_400_bc = (''pre_islamic'', ''Ancient Iran'')
   \<and> detect_historical_period obj_all_empty = (''unknown'', ''Unknown'')
   \<and> detect_historical_period empty_obj = (''unknown'', ''Unknown'')"
proof (intro conjI)
  show "detect_historical_period obj_400_bc = (''pre_islamic'', ''Ancient Iran'')"
    by (simp add: obj_400_bc_def classifier_eval)
  show "detect_historical_period obj_all_empty = (''unknown'', ''Unknown'')"
    by (simp add: obj_all_empty_def classifier_eval)
  show "detect_historical_period empty_obj = (''unknown'', ''Unknown'')"
    by (simp add: classifier_eval)
qed (rule detect_find)

theorem detect_historical_period_algorithm_witness:
  "find (\<lambda>k. keyword_hit k obj_achaemenid) pre_islamic = Some ''Achaemenid''
   \<and> detect_historical_period obj_achaemenid = (''pre_islamic'', ''Achaemenid'')"
proof -
  have f: "find (\<lambda>k. keyword_hit k obj_achaemenid) pre_islamic = Some ''Achaemenid''"
    by (simp add: obj_achaemenid_def classifier_eval)
  from detect_historical_period_algorithm [of obj_achaemenid] f show ?thesis by simp
qed

lemma detect_first_hit:
  assumes "i < length ks" "keyword_hit (ks ! i) obj"
  shows "\<exists>m\<le>i. find (\<lambda>k. keyword_hit k obj) ks = Some (ks ! m) \<and> keyword_hit (ks ! m) obj
            \<and> (\<forall>n<m. \<not> keyword_hit (ks ! n) obj)"
proof -
  from assms have "ks ! i \<in> set ks" by simp
  with assms(2) obtain x where x: "find (\<lambda>k. keyword_hit k obj) ks = Some x"
    by (cases "find (\<lambda>k. keyword_hit k obj) ks") (auto simp: find_None_iff)
  then obtain m where m: "m < length ks" "keyword_hit (ks ! m) obj" "x = ks ! m"
    "\<forall>n<m. \<not> keyword_hit (ks ! n) obj" by (auto simp: find_Some_iff)
  have "m \<le> i" using m(4) assms(2) by (meson not_le_imp_less)
  with x m show ?thesis by blast
qed

text \<open>
  Claim C7. When two keywords of one list both hit a record, the classifier returns a
  keyword at or before the earlier of the two, namely the first keyword of that list that
  hits; Islamic keywords are only considered when no pre-Islamic keyword hits. A title
  holding both "Safavid" and "Qajar" is classified Safavid.
\<close>

theorem keyword_precedence:
  fixes obj :: obj_data
  shows "(\<forall>i j. i < j \<and> j < length pre_islamic
            \<and> keyword_hit (pre_islamic ! i) obj \<and> keyword_hit (pre_islamic ! j) obj \<longrightarrow>
          (\<exists>m\<le>i. detect_historical_period obj = (''pre_islamic'', pre_islamic ! m)
                 \<and> keyword_hit (pre_islamic ! m) obj
                 \<and> (\<forall>n<m. \<not> keyword_hit (pre_islamic ! n) obj)))
   \<and> (\<forall>i j. i < j \<and> j < length islamic
            \<and> keyword_hit (islamic ! i) obj \<and> keyword_hit (islamic ! j) obj
            \<and> (\<forall>k\<in>set pre_islamic. \<not> keyword_hit k obj) \<longrightarrow>
          (\<exists>m\<le>i. detect_historical_period obj = (''islamic'', islamic ! m)
                 \<and> keyword_hit (islamic ! m) obj
                 \<and> (\<forall>n<m. \<not> keyword_hit (islamic ! n) obj)))
   \<and> ((\<exists>k\<in>set pre_islamic. keyword_hit k obj) \<longrightarrow>
          fst (detect_historical_period obj) = ''pre_islamic''
          \<and> snd (detect_historical_period obj) \<in> set pre_islamic)"
proof (intro conjI allI impI)
  fix i j
  assume a: "i < j \<and> j < length pre_islamic
            \<and> keyword_hit (pre_islamic ! i) obj \<and> keyword_hit (pre_islamic ! j) obj"
  then have "i < length pre_islamic" by simp
  from detect_first_hit[OF this] a
  obtain m where "m \<le> i" "find (\<lambda>k. keyword_hit k obj) pre_islamic = Some (pre_islamic ! m)"
    "keyword_hit (pre_islamic ! m) obj" "\<forall>n<m. \<not> keyword_hit (pre_islamic ! n) obj" by blast
  then show "\<exists>m\<le>i. detect_historical_period obj = (''pre_islamic'', pre_islamic ! m)
                 \<and> keyword_hit (pre_islamic ! m) obj
                 \<and> (\<forall>n<m. \<not> keyword_hit (pre_islamic ! n) obj)"
    by (auto simp: detect_find)
next
  fix i j
  assume a: "i < j \<and> j < length islamic
            \<and> keyword_hit (islamic ! i) obj \<and> keyword_hit (islamic ! j) obj
            \<and> (\<forall>k\<in>set pre_islamic. \<not> keyword_hit k obj)"
  then have "i < length islamic" by simp
  from detect_first_hit[OF this] a
  obtain m where m: "m \<le> i" "find (\<lambda>k. keyword_hit k obj) islamic = Some (islamic ! m)"
    "keyword_hit (islamic ! m) obj" "\<forall>n<m. \<not> keyword_hit (islamic ! n) obj" by blast
  from a have "find (\<lambda>k. keyword_hit k obj) pre_islamic = None" by (simp add: find_None_iff)
  with m show "\<exists>m\<le>i. detect_historical_period obj = (''islamic'', islamic ! m)
                 \<and> keyword_hit (islamic ! m) obj
                 \<and> (\<forall>n<m. \<not> keyword_hit (islamic ! n) obj)"
    by (auto simp: detect_find)
next
  assume "\<exists>k\<in>set pre_islamic. keyword_hit k obj"
  then obtain x where x: "find (\<lambda>k. keyword_hit k obj) pre_islamic = Some x"
    by (cases "find (\<lambda>k. keyword_hit k obj) pre_islamic") (auto simp: find_None_iff)
  then have "x \<in> set pre_islamic" by (auto simp: find_Some_iff)
  with x show "fst (detect_historical_period obj) = ''pre_islamic''"
    and "snd (detect_historical_period obj) \<in> set pre_islamic"
    by (simp_all add: detect_find)
qed

theorem keyword_precedence_witness:
  "(3::nat) < 4 \<and> 4 < length islamic
   \<and> keyword_hit (islamic ! 3) obj_safavid_qajar \<and> keyword_hit (islamic ! 4) obj_safavid_qajar
   \<and> \<not> (\<exists>k\<in>set pre_islamic. keyword_hit k obj_safavid_qajar)
   \<and> islamic ! 3 = ''Safavid'' \<and> islamic ! 4 = ''Qajar''
   \<and> detect_historical_period obj_safavid_qajar = (''islamic'', ''Safavid'')"
proof -
  have h: "(3::nat) < 4 \<and> 4 < length islamic
     \<and> keyword_hit (islamic ! 3) obj_safavid_qajar \<and> keyword_hit (islamic ! 4) obj_safavid_qajar
     \<and> (\<forall>k\<in>set pre_islamic. \<not> keyword_hit k obj_safavid_qajar)"
    by (simp add: obj_safavid_qajar_def classifier_eval)
  have n: "\<not> keyword_hit (islamic ! 0) obj_safavid_qajar" "\<not> keyword_hit (islamic ! 1) obj_safavid_qajar"
     "\<not> keyword_hit (islamic ! 2) obj_safavid_qajar"
    by (simp_all add: obj_safavid_qajar_def classifier_eval)
  have i: "islamic ! 3 = ''Safavid''" "islamic ! 4 = ''Qajar''" by (simp_all add: islamic_def)
  from keyword_precedence [of obj_safavid_qajar] h
  obtain m where m: "m \<le> 3" "detect_historical_period obj_safavid_qajar = (''islamic'', islamic ! m)"
    "keyword_hit (islamic ! m) obj_safavid_qajar" by blast
  have "m = 3"
  proof (rule ccontr)
    assume "m \<noteq> 3"
    with m(1) have "m = 0 \<or> m = 1 \<or> m = 2" by arith
    with n m(3) show False by auto
  qed
  with m(2) h i show ?thesis by simp
qed

section \<open>Properties of download_image\<close>

lemma write_file_world:
  "requests (snd (write_file e fp d w)) = requests w"
  "draws (snd (write_file e fp d w)) = draws w"
  "writes (snd (write_file e fp d w)) = writes w + 1"
  "p \<noteq> fp \<Longrightarrow> files (snd (write_file e fp d w)) p = files w p"
  "fst (write_file e fp d w) \<longleftrightarrow> disk e (writes w) fp d = WriteOk"
  by (simp_all add: write_file_def split: write_result.split)

lemma download_attempts_Suc:
  "download_attempts e u h fp (Suc n) w =
     (let r = attempt_reply e w u h 0;
          w1 = w\<lparr>requests := requests w @ [image_request u h]\<rparr>
      in if attempt_fails r
         then download_attempts e u h fp n
                (if r = ConnError \<or> raise_for_status (status r) then sleep 2 w1 else w1)
         else if fst (write_file e fp (content r) w1) then write_file e fp (content r) w1
         else download_attempts e u h fp n (sleep 2 (snd (write_file e fp (content r) w1))))"
proof (cases "http e (length (requests w)) (image_request u h)")
  case ConnError
  then show ?thesis
    by (simp add: http_get_def image_request_def attempt_fails_def attempt_reply_def Let_def)
next
  case (Response st body js)
  obtain ok w2 where wf: "write_file e fp body (w\<lparr>requests := requests w @ [image_request u h]\<rparr>) = (ok, w2)"
    by (cases "write_file e fp body (w\<lparr>requests := requests w @ [image_request u h]\<rparr>)")
  show ?thesis
    using Response wf
    by (cases ok)
       (auto simp: http_get_def image_request_def[symmetric] attempt_fails_def attempt_reply_def Let_def)
qed

lemma next_world_props:
  "requests (next_world e u h fp w) = requests w @ [image_request u h]"
  "draws (next_world e u h fp w) = draws w"
  "writes (next_world e u h fp w)
     = writes w + (if attempt_fails (attempt_reply e w u h 0) then 0 else 1)"
  "p \<noteq> fp \<Longrightarrow> files (next_world e u h fp w) p = files w p"
  "attempt_fails (attempt_reply e w u h 0) \<Longrightarrow> files (next_world e u h fp w) = files w"
  by (simp_all add: next_world_def Let_def sleep_def write_file_world)

lemma download_attempts_step:
  "download_attempts e u h fp (Suc n) w =
     (if attempt_lost e w u h fp 0 then download_attempts e u h fp n (next_world e u h fp w)
      else write_file e fp (content (attempt_reply e w u h 0))
             (w\<lparr>requests := requests w @ [image_request u h]\<rparr>))"
  by (simp add: download_attempts_Suc Let_def next_world_def attempt_lost_def write_index_def
        write_file_world del: download_attempts.simps)

lemma count_shift:
  "length (filter P [0..<Suc i]) = (if P 0 then 1 else 0) + length (filter (\<lambda>k. P (Suc k)) [0..<i])"
proof -
  have "[0..<Suc i] = 0 # map Suc [0..<i]" by (simp add: upt_conv_Cons map_Suc_upt del: upt_Suc)
  then show ?thesis by (simp add: filter_map comp_def del: upt_Suc)
qed

lemma attempt_shift:
  "attempt_reply e (next_world e u h fp w) u h i = attempt_reply e w u h (Suc i)"
  "write_index e (next_world e u h fp w) u h i = write_index e w u h (Suc i)"
  "attempt_lost e (next_world e u h fp w) u h fp i = attempt_lost e w u h fp (Suc i)"
proof -
  show r: "\<And>i. attempt_reply e (next_world e u h fp w) u h i = attempt_reply e w u h (Suc i)"
    by (simp add: attempt_reply_def next_world_props)
  show x: "\<And>i. write_index e (next_world e u h fp w) u h i = write_index e w u h (Suc i)"
  proof -
    fix i
    have "write_index e w u h (Suc i)
        = writes w + ((if \<not> attempt_fails (attempt_reply e w u h 0) then 1 else 0)
            + length (filter (\<lambda>k. \<not> attempt_fails (attempt_reply e w u h (Suc k))) [0..<i]))"
      unfolding write_index_def by (subst count_shift) (rule refl)
    moreover have "write_index e (next_world e u h fp w) u h i
        = writes w + (if attempt_fails (attempt_reply e w u h 0) then 0 else 1)
            + length (filter (\<lambda>k. \<not> attempt_fails (attempt_reply e w u h (Suc k))) [0..<i])"
      unfolding write_index_def r by (simp only: next_world_props)
    ultimately show "write_index e (next_world e u h fp w) u h i = write_index e w u h (Suc i)"
      by simp
  qed
  show "attempt_lost e (next_world e u h fp w) u h fp i = attempt_lost e w u h fp (Suc i)"
    by (simp add: attempt_lost_def r x)
qed

lemma all_less_Suc_shift: "(\<forall>i<Suc n. P i) \<longleftrightarrow> P 0 \<and> (\<forall>i<n. P (Suc i))"
  by (metis less_Suc_eq_0_disj Suc_less_eq zero_less_Suc)

lemma download_attempts_False_iff:
  "\<not> fst (download_attempts e u h fp n w) \<longleftrightarrow> (\<forall>i<n. attempt_lost e w u h fp i)"
proof (induction n arbitrary: w)
  case 0
  show ?case by simp
next
  case (Suc n)
  show ?case
  proof (cases "attempt_lost e w u h fp 0")
    case True
    then show ?thesis
      unfolding download_attempts_step all_less_Suc_shift
      by (simp add: Suc.IH attempt_shift del: download_attempts.simps)
  next
    case False
    then have "fst (write_file e fp (content (attempt_reply e w u h 0))
             (w\<lparr>requests := requests w @ [image_request u h]\<rparr>))"
      by (simp add: attempt_lost_def write_index_def write_file_world)
    with False show ?thesis
      unfolding download_attempts_step all_less_Suc_shift by (simp del: download_attempts.simps)
  qed
qed

lemma download_attempts_trace:
  "download_attempts e u h fp n w = (ok, w') \<Longrightarrow>
     draws w' = draws w \<and>
     (\<exists>m\<le>n. requests w' = requests w @ replicate m (image_request u h) \<and> (\<not> ok \<longrightarrow> m = n)) \<and>
     (\<forall>p. p \<noteq> fp \<longrightarrow> files w' p = files w p)"
proof (induction n arbitrary: w)
  case 0
  then show ?case by auto
next
  case (Suc n)
  let ?r = "image_request u h"
  show ?case
  proof (cases "attempt_lost e w u h fp 0")
    case True
    let ?v = "next_world e u h fp w"
    from Suc.prems True have a: "download_attempts e u h fp n ?v = (ok, w')"
      by (simp add: download_attempts_step del: download_attempts.simps)
    from Suc.IH[OF a] obtain m where m: "m \<le> n" "requests w' = requests ?v @ replicate m ?r"
      "\<not> ok \<longrightarrow> m = n" and d: "draws w' = draws ?v"
      and f: "\<forall>p. p \<noteq> fp \<longrightarrow> files w' p = files ?v p" by blast
    have "requests w' = requests w @ replicate (Suc m) ?r"
      using m(2) by (simp add: next_world_props replicate_app_Cons_same)
    moreover have "Suc m \<le> Suc n" "\<not> ok \<longrightarrow> Suc m = Suc n" using m by auto
    ultimately have "\<exists>k\<le>Suc n. requests w' = requests w @ replicate k ?r \<and> (\<not> ok \<longrightarrow> k = Suc n)"
      by blast
    with d f show ?thesis by (simp add: next_world_props)
  next
    case False
    let ?w1 = "w\<lparr>requests := requests w @ [?r]\<rparr>"
    let ?wf = "write_file e fp (content (attempt_reply e w u h 0)) ?w1"
    from False have "fst ?wf" by (simp add: attempt_lost_def write_index_def write_file_world)
    with Suc.prems False have ok: "ok" and w': "w' = snd ?wf"
      by (auto simp: download_attempts_step simp del: download_attempts.simps)
    have "requests w' = requests w @ replicate (Suc 0) ?r" "draws w' = draws w"
      "\<forall>p. p \<noteq> fp \<longrightarrow> files w' p = files w p"
      by (simp_all add: w' write_file_world)
    then show ?thesis using ok by (metis Suc_leI zero_less_Suc)
  qed
qed

lemma download_attempts_network_failures:
  "\<forall>i<n. attempt_fails (attempt_reply e w u h i) \<Longrightarrow>
   files (snd (download_attempts e u h fp n w)) = files w
   \<and> writes (snd (download_attempts e u h fp n w)) = writes w"
proof (induction n arbitrary: w)
  case 0
  show ?case by simp
next
  case (Suc n)
  from Suc.prems have f0: "attempt_fails (attempt_reply e w u h 0)" by simp
  then have l: "attempt_lost e w u h fp 0" by (simp add: attempt_lost_def)
  from Suc.prems have "\<forall>i<n. attempt_fails (attempt_reply e (next_world e u h fp w) u h i)"
    by (simp add: attempt_shift)
  from Suc.IH[OF this] f0 l show ?case
    by (simp add: download_attempts_step next_world_props del: download_attempts.simps)
qed

lemma get_random_user_agent_world:
  "snd (get_random_user_agent e w) = w\<lparr>draws := draws w + 1\<rparr>"
  by (simp add: get_random_user_agent_def random_choice_def)

lemma attempt_after_draw:
  "attempt_reply e (w\<lparr>draws := d\<rparr>) u h i = attempt_reply e w u h i"
  "attempt_lost e (w\<lparr>draws := d\<rparr>) u h fp i = attempt_lost e w u h fp i"
  by (simp_all add: attempt_reply_def attempt_lost_def write_index_def)

lemma download_image_unfold:
  "download_image e u fp w
     = download_attempts e u (fst (get_random_user_agent e w)) fp retries (w\<lparr>draws := draws w + 1\<rparr>)"
  by (simp add: download_image_def get_random_user_agent_def random_choice_def)

lemma download_image_False_iff:
  "\<not> fst (download_image e u fp w) \<longleftrightarrow>
   (\<forall>i<retries. attempt_lost e w u (fst (get_random_user_agent e w)) fp i)"
  by (simp add: download_image_unfold download_attempts_False_iff attempt_after_draw)

text \<open>
  Claim C5, amended. An attempt fails on the side of the network (the request raises, the
  status is an error, the payload is below 10 KiB) or because writing the file raises. When
  each of the four attempts of a call fails, \<open>download_image\<close> returns False after
  exactly four requests and no path other than the destination has changed; when all four
  fail on the side of the network, no file has changed at all.
\<close>

theorem download_image_exhausted:
  assumes "\<forall>i<retries. attempt_lost e w u (fst (get_random_user_agent e w)) fp i"
  shows "fst (download_image e u fp w) = False
       \<and> length (requests (snd (download_image e u fp w))) = length (requests w) + retries
       \<and> (\<forall>p. p \<noteq> fp \<longrightarrow> files (snd (download_image e u fp w)) p = files w p)
       \<and> ((\<forall>i<retries. attempt_fails (attempt_reply e w u (fst (get_random_user_agent e w)) i)) \<longrightarrow>
            files (snd (download_image e u fp w)) = files w)"
proof -
  let ?h = "fst (get_random_user_agent e w)"
  let ?w1 = "w\<lparr>draws := draws w + 1\<rparr>"
  obtain ok w' where d: "download_attempts e u ?h fp retries ?w1 = (ok, w')"
    by (cases "download_attempts e u ?h fp retries ?w1")
  from assms have "\<not> fst (download_image e u fp w)" by (simp add: download_image_False_iff)
  with d have ok: "\<not> ok" by (simp add: download_image_unfold)
  from download_attempts_trace[OF d] ok
  have "length (requests w') = length (requests w) + retries"
    and "\<forall>p. p \<noteq> fp \<longrightarrow> files w' p = files w p" by auto
  moreover have "(\<forall>i<retries. attempt_fails (attempt_reply e w u ?h i)) \<longrightarrow> files w' = files w"
  proof
    assume "\<forall>i<retries. attempt_fails (attempt_reply e w u ?h i)"
    then have "\<forall>i<retries. attempt_fails (attempt_reply e ?w1 u ?h i)"
      by (simp add: attempt_after_draw)
    from download_attempts_network_failures[OF this, of fp] d show "files w' = files w" by simp
  qed
  ultimately show ?thesis using ok d by (simp add: download_image_unfold)
qed

lemma retries_Suc: "retries = Suc (Suc (Suc (Suc 0)))"
  by (simp add: retries_def)

lemmas world_eval =
  download_image_def get_random_user_agent_def random_choice_def retries_Suc
  env_serving_def env_bad_disk_def world0_def http_get_def sleep_def write_file_def
  raise_for_status_def image_request_def attempt_fails_def fresh_user_agents_def

theorem download_image_exhausted_witness:
  "list_all (\<lambda>i. attempt_lost (env_serving ConnError) world0 ''u''
               (fst (get_random_user_agent (env_serving ConnError) world0)) ''f.jpg'' i)
     [0..<retries]
   \<and> fst (download_image (env_serving ConnError) ''u'' ''f.jpg'' world0) = False
   \<and> files (snd (download_image (env_serving ConnError) ''u'' ''f.jpg'' world0)) = Map.empty
   \<and> length (requests (snd (download_image (env_serving ConnError) ''u'' ''f.jpg'' world0))) = 4"
proof -
  let ?h = "fst (get_random_user_agent (env_serving ConnError) world0)"
  have f: "\<forall>i<retries. attempt_fails (attempt_reply (env_serving ConnError) world0 ''u'' ?h i)"
    by (simp add: env_serving_def attempt_fails_def attempt_reply_def)
  then have h: "\<forall>i<retries. attempt_lost (env_serving ConnError) world0 ''u'' ?h ''f.jpg'' i"
    by (simp add: attempt_lost_def)
  from download_image_exhausted [OF h] f h show ?thesis
    by (simp add: world0_def retries_def list_all_iff)
qed

text \<open>
  Claim C5 as stated (a call that fails has written no file, partial or otherwise) fails:
  the write sits inside the \<open>try\<close> of the loop, so when the replies are good and each
  write raises after 100 bytes, the call returns False and the destination, which did
  not exist, holds 100 bytes.
\<close>

theorem download_image_partial_file_counterexample:
  "fst (download_image (env_bad_disk (Response 200 (replicate 10240 CHR ''x'') None) (WriteFails 100))
          ''u'' ''f.jpg'' world0) = False
   \<and> files (snd (download_image
          (env_bad_disk (Response 200 (replicate 10240 CHR ''x'') None) (WriteFails 100))
          ''u'' ''f.jpg'' world0)) ''f.jpg'' = Some (replicate 100 CHR ''x'')
   \<and> files world0 ''f.jpg'' = None"
  by (simp add: world_eval)

text \<open>
  Claim C6, amended. An attempt whose reply has a successful status is accepted exactly when
  the payload has at least 10240 bytes and writing the file succeeds: then the destination
  holds the payload and True is returned. Below 10240 bytes no write is tried and the loop
  goes on with the attempts that are left; when the write raises, the attempt counts as
  failed too, and the loop sleeps and goes on. The instance that follows takes payloads of
  10240 and of 10239 bytes.
\<close>

theorem download_attempt_size_threshold:
  assumes "http e (length (requests w)) (image_request u h) = Response st body js"
    and "\<not> raise_for_status st"
  shows "download_attempts e u h fp (Suc n) w =
     (if length body < 10240
      then download_attempts e u h fp n (w\<lparr>requests := requests w @ [image_request u h]\<rparr>)
      else if disk e (writes w) fp body = WriteOk
      then (True, w\<lparr>requests := requests w @ [image_request u h],
                     files := (files w)(fp \<mapsto> body), writes := writes w + 1\<rparr>)
      else download_attempts e u h fp n
             (sleep 2 (snd (write_file e fp body
                (w\<lparr>requests := requests w @ [image_request u h]\<rparr>)))))"
  using assms
  by (simp add: http_get_def image_request_def write_file_def split: write_result.split)

theorem download_attempt_size_threshold_witness:
  "http (env_serving (Response 200 (replicate 10240 CHR ''x'') None)) (length (requests world0))
       (image_request ''u'' ''h'') = Response 200 (replicate 10240 CHR ''x'') None
   \<and> http (env_serving (Response 200 (replicate 10239 CHR ''x'') None)) (length (requests world0))
       (image_request ''u'' ''h'') = Response 200 (replicate 10239 CHR ''x'') None
   \<and> \<not> raise_for_status 200
   \<and> disk (env_serving (Response 200 (replicate 10240 CHR ''x'') None)) (writes world0)
        ''f.jpg'' (replicate 10240 CHR ''x'') = WriteOk
   \<and> download_attempts (env_serving (Response 200 (replicate 10240 CHR ''x'') None))
        ''u'' ''h'' ''f.jpg'' (Suc 3) world0
      = (True, world0\<lparr>files := [''f.jpg'' \<mapsto> replicate 10240 CHR ''x''],
                      requests := [image_request ''u'' ''h''], writes := 1\<rparr>)
   \<and> download_attempts (env_serving (Response 200 (replicate 10239 CHR ''x'') None))
        ''u'' ''h'' ''f.jpg'' (Suc 3) world0
      = download_attempts (env_serving (Response 200 (replicate 10239 CHR ''x'') None))
        ''u'' ''h'' ''f.jpg'' 3 (world0\<lparr>requests := [image_request ''u'' ''h'']\<rparr>)"
proof -
  let ?a = "env_serving (Response 200 (replicate 10240 CHR ''x'') None)"
  let ?b = "env_serving (Response 200 (replicate 10239 CHR ''x'') None)"
  have a: "http ?a (length (requests world0)) (image_request ''u'' ''h'')
             = Response 200 (replicate 10240 CHR ''x'') None"
    by (simp add: env_serving_def)
  have b: "http ?b (length (requests world0)) (image_request ''u'' ''h'')
             = Response 200 (replicate 10239 CHR ''x'') None"
    by (simp add: env_serving_def)
  have s: "\<not> raise_for_status 200" by (simp add: raise_for_status_def)
  have d: "disk ?a (writes world0) ''f.jpg'' (replicate 10240 CHR ''x'') = WriteOk"
    by (simp add: env_serving_def)
  from download_attempt_size_threshold [OF a s, of "''f.jpg''" 3]
       download_attempt_size_threshold [OF b s, of "''f.jpg''" 3] a b s d
  show ?thesis by (simp add: world0_def)
qed

text \<open>
  Claim C6 as stated (a payload of 10240 bytes with a successful status is accepted and
  written) fails when \<open>open\<close> raises: the attempt is lost and the path stays absent.
\<close>

theorem download_attempt_write_fails_counterexample:
  "http (env_bad_disk (Response 200 (replicate 10240 CHR ''x'') None) OpenFails)
       (length (requests world0)) (image_request ''u'' ''h'')
     = Response 200 (replicate 10240 CHR ''x'') None
   \<and> download_attempts (env_bad_disk (Response 200 (replicate 10240 CHR ''x'') None) OpenFails)
        ''u'' ''h'' ''f.jpg'' (Suc 0) world0
      = (False, world0\<lparr>requests := [image_request ''u'' ''h''], slept := 2, writes := 1\<rparr>)
   \<and> files (world0\<lparr>requests := [image_request ''u'' ''h''], slept := 2, writes := 1\<rparr>) ''f.jpg''
      = None"
  by (simp add: world_eval)

text \<open>
  Claim C4, amended: \<open>download_image\<close> draws one User-Agent per call, before its loop,
  and every one of its up to four requests carries that header (and a timeout of 25
  seconds); the call consumes exactly one random draw.
\<close>

theorem download_image_single_user_agent:
  assumes "download_image e u fp w = (ok, w')"
  shows "draws w' = draws w + 1
       \<and> (\<exists>m\<le>retries. requests w' = requests w @ replicate m
              (image_request u (user_agents ! (rand e (draws w) mod length user_agents)))
            \<and> (\<not> ok \<longrightarrow> m = retries))"
proof -
  let ?h = "user_agents ! (rand e (draws w) mod length user_agents)"
  let ?w1 = "w\<lparr>draws := draws w + 1\<rparr>"
  from assms have d: "download_attempts e u ?h fp retries ?w1 = (ok, w')"
    by (simp add: download_image_def get_random_user_agent_def random_choice_def)
  from download_attempts_trace[OF d] show ?thesis by simp
qed

theorem download_image_single_user_agent_witness:
  "download_image (env_serving ConnError) ''u'' ''f.jpg'' world0
     = (False, world0\<lparr>requests := replicate retries (image_request ''u'' (user_agents ! 0)),
                       draws := 1, slept := 8\<rparr>)
   \<and> draws (world0\<lparr>requests := replicate retries (image_request ''u'' (user_agents ! 0)),
                       draws := 1, slept := 8\<rparr>) = draws world0 + 1
   \<and> (\<exists>m\<le>retries. requests (world0\<lparr>requests := replicate retries (image_request ''u'' (user_agents ! 0)),
                       draws := 1, slept := 8\<rparr>) = requests world0 @ replicate m
              (image_request ''u'' (user_agents ! (rand (env_serving ConnError) (draws world0) mod length user_agents)))
            \<and> m = retries)"
proof -
  have h: "download_image (env_serving ConnError) ''u'' ''f.jpg'' world0
     = (False, world0\<lparr>requests := replicate retries (image_request ''u'' (user_agents ! 0)),
                       draws := 1, slept := 8\<rparr>)"
    by (simp add: world_eval user_agents_def)
  from download_image_single_user_agent [OF h] h show ?thesis by simp
qed

text \<open>
  Claim C4 as stated (each attempt carries a freshly drawn header) fails: when the k-th
  draw is k and every request fails, the four attempts all carry the first user agent,
  where fresh draws would have given the first, second, third and first.
\<close>

theorem download_image_fresh_user_agent_counterexample:
  "map user_agent (requests (snd (download_image (env_serving ConnError) ''u'' ''f.jpg'' world0)))
     \<noteq> fresh_user_agents (env_serving ConnError) world0 retries"
  by (simp add: world_eval user_agents_def)

section \<open>Properties of process_pottery_object\<close>

lemma attempt_lost_cong:
  "length (requests v) = length (requests w) \<Longrightarrow> writes v = writes w \<Longrightarrow>
   attempt_lost e v u h fp i = attempt_lost e w u h fp i"
  by (simp add: attempt_lost_def attempt_reply_def write_index_def)

lemma process_unfold:
  assumes "http e (length (requests w)) (object_request obj_id (fst (get_random_user_agent e w)))
             = Response st body (Some data)"
  shows "process_pottery_object e obj_id image_dir w =
     (let w2 = w\<lparr>draws := draws w + 1,
                  requests := requests w @ [object_request obj_id (fst (get_random_user_agent e w))]\<rparr>;
          img = get_default (primaryImage data) []
      in if img = [] then (Inl (ValueError ''No primary image available''), w2)
         else if \<not> fst (download_image e img (image_path image_dir obj_id data) w2)
         then (Inl (ConnectionError ''Image download failed''),
               snd (download_image e img (image_path image_dir obj_id data) w2))
         else (Inr \<lparr>m_objectID = obj_id,
                     m_title = normalize_text (title data),
                     m_culture = normalize_text (culture data),
                     m_period = normalize_text (period data),
                     m_objectDate = normalize_text (objectDate data),
                     m_objectName = normalize_text (objectName data),
                     m_classification = normalize_text (classification data),
                     m_medium = normalize_text (medium data),
                     m_dimensions = normalize_text (dimensions data),
                     m_creditLine = normalize_text (creditLine data),
                     m_country = normalize_text (country data),
                     m_region = normalize_text (region data),
                     m_tags = str_join '', '' (get_default (tags data) []),
                     m_isPublicDomain = get_default (isPublicDomain data) False,
                     m_primaryImage = img,
                     m_era_classification = fst (detect_historical_period data),
                     m_historical_period = snd (detect_historical_period data),
                     m_local_path = image_path image_dir obj_id data,
                     m_source = ''MET''\<rparr>,
               snd (download_image e img (image_path image_dir obj_id data) w2)))"
proof -
  obtain era pname where d: "detect_historical_period data = (era, pname)"
    by (cases "detect_historical_period data")
  obtain ua w1 where g: "get_random_user_agent e w = (ua, w1)" by (cases "get_random_user_agent e w")
  then have w1: "w1 = w\<lparr>draws := draws w + 1\<rparr>"
    by (auto simp: get_random_user_agent_def random_choice_def)
  let ?w2 = "w\<lparr>draws := draws w + 1, requests := requests w @ [object_request obj_id ua]\<rparr>"
  from assms g w1 have h: "http_get e (object_request obj_id ua) w1 = (Response st body (Some data), ?w2)"
    by (simp add: http_get_def)
  obtain ok w3 where dl: "download_image e (get_default (primaryImage data) []) (image_path image_dir obj_id data) ?w2 = (ok, w3)"
    by (cases "download_image e (get_default (primaryImage data) []) (image_path image_dir obj_id data) ?w2")
  show ?thesis
    unfolding process_pottery_object_def g
    using h dl d by (cases ok) (simp_all add: object_request_def[symmetric] image_path_def Let_def)
qed

text \<open>
  What \<open>process_pottery_object\<close> does once the object has been fetched. It returns a
  record or fails in one of two ways: with "No primary image available" exactly when the
  object has no primary image URL, and then no request beyond the fetch has been sent and
  no file written; with "Image download failed" exactly when there is an image URL and each
  of the four download attempts fails. A record that is returned holds the eleven text
  fields passed through \<open>normalize_text\<close>: at most 500 characters each, single-spaced,
  not starting with whitespace, and empty for a missing field; it holds the tags joined by
  ", " (empty when missing) and \<open>isPublicDomain\<close> with False for a missing value.
\<close>

lemma process_pottery_object_outcomes:
  assumes "http e (length (requests w)) (object_request obj_id (fst (get_random_user_agent e w)))
             = Response st body (Some data)"
  shows "(fst (process_pottery_object e obj_id image_dir w) = Inl (ValueError ''No primary image available'')
            \<longleftrightarrow> get_default (primaryImage data) [] = [])
       \<and> (get_default (primaryImage data) [] = [] \<longrightarrow>
            requests (snd (process_pottery_object e obj_id image_dir w))
              = requests w @ [object_request obj_id (fst (get_random_user_agent e w))]
            \<and> files (snd (process_pottery_object e obj_id image_dir w)) = files w)
       \<and> (fst (process_pottery_object e obj_id image_dir w) = Inl (ConnectionError ''Image download failed'')
            \<longleftrightarrow> get_default (primaryImage data) [] \<noteq> []
               \<and> (\<forall>i<retries. attempt_lost e
                     (w\<lparr>requests := requests w @ [object_request obj_id (fst (get_random_user_agent e w))]\<rparr>)
                     (get_default (primaryImage data) [])
                     (user_agents ! (rand e (Suc (draws w)) mod length user_agents))
                     (image_path image_dir obj_id data) i))
       \<and> (\<forall>r. fst (process_pottery_object e obj_id image_dir w) = Inr r \<longrightarrow>
              text_values r = map normalize_text (text_keys data)
            \<and> (\<forall>i<length (text_keys data). text_keys data ! i = None \<longrightarrow> text_values r ! i = [])
            \<and> (\<forall>v\<in>set (text_values r). length v \<le> 500 \<and> single_spaced v
                   \<and> (v \<noteq> [] \<longrightarrow> \<not> is_space (hd v)))
            \<and> m_tags r = str_join '', '' (get_default (tags data) [])
            \<and> (tags data = None \<longrightarrow> m_tags r = [])
            \<and> m_isPublicDomain r = get_default (isPublicDomain data) False
            \<and> (isPublicDomain data = None \<longrightarrow> \<not> m_isPublicDomain r))
       \<and> ((\<exists>r. fst (process_pottery_object e obj_id image_dir w) = Inr r)
            \<or> fst (process_pottery_object e obj_id image_dir w) = Inl (ValueError ''No primary image available'')
            \<or> fst (process_pottery_object e obj_id image_dir w) = Inl (ConnectionError ''Image download failed''))"
proof -
  let ?img = "get_default (primaryImage data) []"
  let ?rq = "object_request obj_id (fst (get_random_user_agent e w))"
  let ?w2 = "w\<lparr>draws := draws w + 1, requests := requests w @ [?rq]\<rparr>"
  let ?dl = "download_image e ?img (image_path image_dir obj_id data) ?w2"
  have sw: "?w2 = (w\<lparr>requests := requests w @ [?rq]\<rparr>)\<lparr>draws := draws w + 1\<rparr>" by simp
  have dl: "\<not> fst ?dl \<longleftrightarrow>
     (\<forall>i<retries. attempt_lost e (w\<lparr>requests := requests w @ [?rq]\<rparr>) ?img
         (user_agents ! (rand e (Suc (draws w)) mod length user_agents))
         (image_path image_dir obj_id data) i)"
  proof -
    have h: "fst (get_random_user_agent e ?w2)
               = user_agents ! (rand e (Suc (draws w)) mod length user_agents)"
      by (simp add: get_random_user_agent_def random_choice_def)
    have "\<And>u h fp i. attempt_lost e ?w2 u h fp i
             = attempt_lost e (w\<lparr>requests := requests w @ [?rq]\<rparr>) u h fp i"
      by (rule attempt_lost_cong) simp_all
    then show ?thesis unfolding download_image_False_iff h by simp
  qed
  note u = process_unfold [OF assms, of image_dir]
  have a: "fst (process_pottery_object e obj_id image_dir w) = Inl (ValueError ''No primary image available'')
            \<longleftrightarrow> ?img = []"
    by (simp add: u Let_def)
  have b: "?img = [] \<longrightarrow>
            requests (snd (process_pottery_object e obj_id image_dir w)) = requests w @ [?rq]
            \<and> files (snd (process_pottery_object e obj_id image_dir w)) = files w"
    by (simp add: u Let_def)
  have c: "fst (process_pottery_object e obj_id image_dir w) = Inl (ConnectionError ''Image download failed'')
            \<longleftrightarrow> ?img \<noteq> [] \<and> \<not> fst ?dl"
    by (simp add: u Let_def)
  have n: "\<And>v. length (normalize_text v) \<le> 500 \<and> single_spaced (normalize_text v)
              \<and> (normalize_text v \<noteq> [] \<longrightarrow> \<not> is_space (hd (normalize_text v)))"
    using length_normalize_text single_spaced_normalize_text normalize_text_no_leading_space
    by blast
  have d: "\<forall>r. fst (process_pottery_object e obj_id image_dir w) = Inr r \<longrightarrow>
              text_values r = map normalize_text (text_keys data)
            \<and> (\<forall>i<length (text_keys data). text_keys data ! i = None \<longrightarrow> text_values r ! i = [])
            \<and> (\<forall>v\<in>set (text_values r). length v \<le> 500 \<and> single_spaced v
                   \<and> (v \<noteq> [] \<longrightarrow> \<not> is_space (hd v)))
            \<and> m_tags r = str_join '', '' (get_default (tags data) [])
            \<and> (tags data = None \<longrightarrow> m_tags r = [])
            \<and> m_isPublicDomain r = get_default (isPublicDomain data) False
            \<and> (isPublicDomain data = None \<longrightarrow> \<not> m_isPublicDomain r)"
  proof (intro allI impI)
    fix r assume "fst (process_pottery_object e obj_id image_dir w) = Inr r"
    then have tv: "text_values r = map normalize_text (text_keys data)"
      and tg: "m_tags r = str_join '', '' (get_default (tags data) [])"
      and pd: "m_isPublicDomain r = get_default (isPublicDomain data) False"
      by (auto simp: u Let_def text_values_def text_keys_def split: if_splits)
    have "\<forall>i<length (text_keys data). text_keys data ! i = None \<longrightarrow> text_values r ! i = []"
      by (simp add: tv normalize_text_def)
    moreover have "\<forall>v\<in>set (text_values r). length v \<le> 500 \<and> single_spaced v
                   \<and> (v \<noteq> [] \<longrightarrow> \<not> is_space (hd v))"
      unfolding tv using n by auto
    ultimately show "text_values r = map normalize_text (text_keys data)
            \<and> (\<forall>i<length (text_keys data). text_keys data ! i = None \<longrightarrow> text_values r ! i = [])
            \<and> (\<forall>v\<in>set (text_values r). length v \<le> 500 \<and> single_spaced v
                   \<and> (v \<noteq> [] \<longrightarrow> \<not> is_space (hd v)))
            \<and> m_tags r = str_join '', '' (get_default (tags data) [])
            \<and> (tags data = None \<longrightarrow> m_tags r = [])
            \<and> m_isPublicDomain r = get_default (isPublicDomain data) False
            \<and> (isPublicDomain data = None \<longrightarrow> \<not> m_isPublicDomain r)"
      using tv tg pd by (simp add: get_default_def)
  qed
  have f: "(\<exists>r. fst (process_pottery_object e obj_id image_dir w) = Inr r)
            \<or> fst (process_pottery_object e obj_id image_dir w) = Inl (ValueError ''No primary image available'')
            \<or> fst (process_pottery_object e obj_id image_dir w) = Inl (ConnectionError ''Image download failed'')"
    by (simp add: u Let_def)
  from a b c d f dl show ?thesis by blast
qed

text \<open>
  Claim C9 (every text field of a returned record is whitespace-collapsed, stripped and
  truncated to 500 characters), at an object whose title has 499 letters, a space and one
  more letter and whose image downloads: the record is returned with a title of 499
  letters and a space, which ends in whitespace. This is the cut after the strip in
  \<open>normalize_text\<close> again.
\<close>

theorem process_pottery_object_unstripped_title:
  "\<exists>r. fst (process_pottery_object env_long_title 7 ''img'' world0) = Inr r
       \<and> title obj_long_title = Some (replicate 499 CHR ''a'' @ '' b'')
       \<and> m_title r = replicate 499 CHR ''a'' @ '' ''
       \<and> is_space (last (m_title r))"
proof -
  let ?e = env_long_title
  let ?P = "process_pottery_object ?e 7 ''img'' world0"
  let ?rq = "object_request 7 (fst (get_random_user_agent ?e world0))"
  have h: "http ?e (length (requests world0)) ?rq = Response 200 [] (Some obj_long_title)"
    by (simp add: env_long_title_def world0_def)
  note t = process_pottery_object_outcomes [OF h, of "''img''"]
  have img: "get_default (primaryImage obj_long_title) [] \<noteq> []"
    by (simp add: obj_long_title_def empty_obj_def get_default_def)
  have ok: "\<not> attempt_lost ?e (world0\<lparr>requests := requests world0 @ [?rq]\<rparr>)
       (get_default (primaryImage obj_long_title) [])
       (user_agents ! (rand ?e (Suc (draws world0)) mod length user_agents))
       (image_path ''img'' 7 obj_long_title) 0"
    by (simp add: env_long_title_def env_object_then_image_def attempt_lost_def attempt_reply_def
          attempt_fails_def raise_for_status_def world0_def)
  have r0: "0 < retries" by (simp add: retries_def)
  from t img have nv: "fst ?P \<noteq> Inl (ValueError ''No primary image available'')" by blast
  from t ok r0 have nc: "fst ?P \<noteq> Inl (ConnectionError ''Image download failed'')" by blast
  from t nv nc obtain r where r: "fst ?P = Inr r" by blast
  with t have tv: "text_values r = map normalize_text (text_keys obj_long_title)" by blast
  have ti: "title obj_long_title = Some (replicate 499 CHR ''a'' @ '' b'')"
    by (simp add: obj_long_title_def empty_obj_def)
  from tv have "m_title r = normalize_text (title obj_long_title)"
    by (simp add: text_values_def text_keys_def)
  then have m: "m_title r = replicate 499 CHR ''a'' @ '' ''"
    by (simp only: ti normalize_text_cut)
  have "is_space (last (m_title r))" unfolding m by (simp add: is_space_def)
  with r ti m show ?thesis by blast
qed

section \<open>Properties of the run\<close>

lemma search_loop_world:
  "files (snd (search_loop e qs ids w)) = files w \<and>
   length (requests (snd (search_loop e qs ids w))) = length (requests w) + length qs"
proof (induction qs arbitrary: ids w)
  case Nil
  show ?case by simp
next
  case (Cons q qs)
  show ?case
    by (simp add: Cons.IH get_random_user_agent_def random_choice_def http_get_def sleep_def
          split: http_result.split option.split)
qed

lemma fetch_and_group_world:
  "files (snd (fetch_and_group e i w)) = files w \<and>
   length (requests (snd (fetch_and_group e i w))) = Suc (length (requests w))"
  by (simp add: fetch_and_group_def get_random_user_agent_def random_choice_def http_get_def
        split: http_result.split option.split prod.split)

lemma fetch_and_group_fails:
  assumes "\<forall>r. fetch_fails (http e (length (requests w)) r)"
  shows "fst (fetch_and_group e i w) = None"
proof -
  let ?q = "\<lparr>url = object_url i, params = [],
             user_agent = user_agents ! (rand e (draws w) mod length user_agents), timeout = 10\<rparr>"
  from assms have "fetch_fails (http e (length (requests w)) ?q)" by blast
  then show ?thesis
    by (auto simp: fetch_and_group_def get_random_user_agent_def random_choice_def http_get_def
          fetch_fails_def split: http_result.splits option.splits prod.splits)
qed

lemma group_loop_files: "files (snd (group_loop e ids groups w)) = files w"
proof (induction ids arbitrary: groups w)
  case Nil
  show ?case by simp
next
  case (Cons i ids)
  obtain r w1 where f: "fetch_and_group e i w = (r, w1)" by (cases "fetch_and_group e i w")
  with fetch_and_group_world[of e i w] have "files w1 = files w" by simp
  with f show ?case by (cases r) (auto simp: Cons.IH)
qed

lemma group_loop_all_fail:
  "\<forall>k r. length (requests w) \<le> k \<longrightarrow> fetch_fails (http e k r) \<Longrightarrow>
   fst (group_loop e ids groups w) = groups"
proof (induction ids arbitrary: w)
  case Nil
  show ?case by simp
next
  case (Cons i ids)
  obtain r w1 where f: "fetch_and_group e i w = (r, w1)" by (cases "fetch_and_group e i w")
  from Cons.prems have "\<forall>r. fetch_fails (http e (length (requests w)) r)" by simp
  from fetch_and_group_fails[OF this, of i] f have r: "r = None" by simp
  from fetch_and_group_world[of e i w] f have "length (requests w1) = Suc (length (requests w))" by simp
  with Cons.prems have "\<forall>k r. length (requests w1) \<le> k \<longrightarrow> fetch_fails (http e k r)" by simp
  from Cons.IH[OF this] f r show ?case by simp
qed

lemma sample_groups_empty:
  "sample_groups e mx [] w = (Inl (ValueError ''min() arg is an empty sequence''), w)"
  by (simp add: sample_groups_def target_per_group_def min_count_def)

lemma empty_groups_run:
  assumes "fst (grouping_phase e w) = []"
  shows "fst (download_iran_pottery e w) = Some (ValueError ''min() arg is an empty sequence'')"
    and "files (snd (download_iran_pottery e w)) = files w"
proof -
  obtain g w2 where gp: "grouping_phase e w = (g, w2)" by (cases "grouping_phase e w")
  with assms have g: "g = []" by simp
  obtain ids w1 where s: "search_loop e search_queries [] w = (ids, w1)"
    by (cases "search_loop e search_queries [] w")
  from search_loop_world[of e search_queries "[]" w] s have "files w1 = files w" by simp
  moreover from gp s have "w2 = snd (group_loop e (sort_key (finish_time e 2) ids) [] w1)"
    by (simp add: grouping_phase_def)
  ultimately have f: "files w2 = files w" by (simp add: group_loop_files)
  from gp g show "fst (download_iran_pottery e w) = Some (ValueError ''min() arg is an empty sequence'')"
    by (simp add: download_iran_pottery_def sample_groups_empty)
  from gp g f show "files (snd (download_iran_pottery e w)) = files w"
    by (simp add: download_iran_pottery_def sample_groups_empty)
qed

text \<open>
  Claim C10. When the grouping phase ends with no group at all, the sampling step raises
  (the minimum of nothing), so the run ends there, before \<open>save_metadata\<close>: no file has
  been written. That happens when the searches find no ID, and when every fetch of the
  grouping phase fails.
\<close>

theorem empty_groups_abort:
  "(fst (grouping_phase e w) = [] \<longrightarrow>
      fst (download_iran_pottery e w) = Some (ValueError ''min() arg is an empty sequence'')
      \<and> files (snd (download_iran_pottery e w)) = files w)
   \<and> (fst (search_loop e search_queries [] w) = [] \<longrightarrow> fst (grouping_phase e w) = [])
   \<and> ((\<forall>k r. length (requests w) + length search_queries \<le> k \<longrightarrow> fetch_fails (http e k r)) \<longrightarrow>
        fst (grouping_phase e w) = [])"
proof (intro conjI impI)
  assume "fst (grouping_phase e w) = []"
  then show "fst (download_iran_pottery e w) = Some (ValueError ''min() arg is an empty sequence'')"
    and "files (snd (download_iran_pottery e w)) = files w"
    by (rule empty_groups_run)+
next
  assume "fst (search_loop e search_queries [] w) = []"
  then show "fst (grouping_phase e w) = []"
    by (cases "search_loop e search_queries [] w") (simp add: grouping_phase_def)
next
  assume a: "\<forall>k r. length (requests w) + length search_queries \<le> k \<longrightarrow> fetch_fails (http e k r)"
  obtain ids w1 where s: "search_loop e search_queries [] w = (ids, w1)"
    by (cases "search_loop e search_queries [] w")
  from search_loop_world[of e search_queries "[]" w] s
  have "length (requests w1) = length (requests w) + length search_queries" by simp
  with a have "\<forall>k r. length (requests w1) \<le> k \<longrightarrow> fetch_fails (http e k r)" by simp
  from group_loop_all_fail[OF this] s show "fst (grouping_phase e w) = []"
    by (simp add: grouping_phase_def)
qed

lemma search_loop_steady:
  assumes "\<forall>k q. k < N \<longrightarrow> http e k q = Response st body (Some data)"
    and "\<not> raise_for_status st"
    and "set_update acc (get_default (objectIDs data) []) = acc"
  shows "length (requests w) + length qs \<le> N \<Longrightarrow> fst (search_loop e qs acc w) = acc"
proof (induction qs arbitrary: w)
  case Nil
  show ?case by simp
next
  case (Cons q qs)
  let ?r = "\<lparr>url = ''https://collectionapi.metmuseum.org/public/collection/v1/search'',
              params = [(''q'', q), (''hasImages'', ''true'')],
              user_agent = user_agents ! (rand e (draws w) mod length user_agents), timeout = 20\<rparr>"
  let ?w2 = "sleep 1 (w\<lparr>draws := draws w + 1, requests := requests w @ [?r]\<rparr>)"
  from Cons.prems have "length (requests w) < N" by simp
  with assms(1) have "http e (length (requests w)) ?r = Response st body (Some data)" by blast
  with assms(2,3) have "search_loop e (q # qs) acc w = search_loop e qs acc ?w2"
    by (simp add: get_random_user_agent_def random_choice_def http_get_def)
  moreover from Cons.prems have "length (requests ?w2) + length qs \<le> N" by (simp add: sleep_def)
  ultimately show ?case using Cons.IH by simp
qed

lemma search_loop_env_search_only:
  "fst (search_loop env_search_only search_queries [] world0) = [1, 2]"
proof -
  let ?d = "empty_obj\<lparr>objectIDs := Some [1, 2]\<rparr>"
  have a: "\<forall>k q. k < 16 \<longrightarrow> http env_search_only k q = Response 200 [] (Some ?d)"
    by (simp add: env_search_only_def)
  have b: "\<not> raise_for_status 200" by (simp add: raise_for_status_def)
  have c: "set_update [1, 2] (get_default (objectIDs ?d) []) = [1, 2]"
    by (simp add: set_update_def get_default_def)
  have d: "set_update [] (get_default (objectIDs ?d) []) = [1, 2]"
    by (simp add: set_update_def get_default_def)
  obtain q qs where q: "search_queries = q # qs" "length qs = 15"
    by (simp add: search_queries_def)
  let ?r = "\<lparr>url = ''https://collectionapi.metmuseum.org/public/collection/v1/search'',
              params = [(''q'', q), (''hasImages'', ''true'')],
              user_agent = user_agents ! (rand env_search_only (draws world0) mod length user_agents),
              timeout = 20\<rparr>"
  let ?w2 = "sleep 1 (world0\<lparr>draws := draws world0 + 1, requests := requests world0 @ [?r]\<rparr>)"
  have "http env_search_only (length (requests world0)) ?r = Response 200 [] (Some ?d)"
    using a by (simp add: world0_def)
  with b d have "search_loop env_search_only (q # qs) [] world0
                   = search_loop env_search_only qs [1, 2] ?w2"
    by (simp add: get_random_user_agent_def random_choice_def http_get_def)
  moreover have "length (requests ?w2) + length qs \<le> 16"
    by (simp add: q sleep_def world0_def)
  from search_loop_steady[OF a b c this]
  have "fst (search_loop env_search_only qs [1, 2] ?w2) = [1, 2]" .
  ultimately show ?thesis by (simp add: q)
qed

theorem empty_groups_abort_witness:
  "fst (search_loop env_search_only search_queries [] world0) = [1, 2]
   \<and> \<not> (\<exists>k r. length (requests world0) + length search_queries \<le> k
              \<and> \<not> fetch_fails (http env_search_only k r))
   \<and> fst (grouping_phase env_search_only world0) = []
   \<and> fst (download_iran_pottery env_search_only world0)
        = Some (ValueError ''min() arg is an empty sequence'')
   \<and> files (snd (download_iran_pottery env_search_only world0)) = Map.empty"
proof -
  have h: "\<forall>k r. length (requests world0) + length search_queries \<le> k \<longrightarrow>
         fetch_fails (http env_search_only k r)"
    by (simp add: world0_def search_queries_def env_search_only_def fetch_fails_def)
  have f: "files world0 = Map.empty" by (simp add: world0_def)
  from empty_groups_abort [of env_search_only world0] h search_loop_env_search_only f
  show ?thesis by simp
qed

section \<open>Properties of the sampling\<close>

lemma mset_pool_step:
  assumes "j < length pool"
  shows "mset (butlast (pool[j := last pool])) = mset pool - {#pool ! j#}"
proof -
  from assms have ne: "pool \<noteq> []" by auto
  let ?p = "pool[j := last pool]"
  have l: "last ?p = last pool"
    using assms ne by (cases "j = length pool - 1") (simp_all add: last_conv_nth nth_list_update)
  have "?p \<noteq> []" using ne by simp
  then have "mset ?p = mset (butlast ?p) + {#last ?p#}"
    by (metis append_butlast_last_id mset.simps(1) mset.simps(2) union_code union_mset_add_mset_right add.right_neutral)
  moreover have "mset ?p = mset pool - {#pool ! j#} + {#last pool#}"
    using assms by (simp add: mset_update)
  ultimately show ?thesis using l by simp
qed

lemma sample_from_pool_props:
  "k \<le> length pool \<Longrightarrow>
   length (sample_from_pool rnd d pool k) = k \<and> mset (sample_from_pool rnd d pool k) \<subseteq># mset pool"
proof (induction k arbitrary: d pool)
  case 0
  show ?case by simp
next
  case (Suc k)
  let ?j = "rnd d mod length pool"
  let ?p = "butlast (pool[?j := last pool])"
  from Suc.prems have pos: "0 < length pool" by (cases pool) simp_all
  then have j: "?j < length pool" by simp
  have "k \<le> length ?p" using Suc.prems by simp
  from Suc.IH[OF this, of "Suc d"]
  have len: "length (sample_from_pool rnd (Suc d) ?p k) = k"
    and sub: "mset (sample_from_pool rnd (Suc d) ?p k) \<subseteq># mset pool - {#pool ! ?j#}"
    by (simp_all add: mset_pool_step[OF j])
  have "pool ! ?j \<in># mset pool" using j by simp
  with sub have "add_mset (pool ! ?j) (mset (sample_from_pool rnd (Suc d) ?p k)) \<subseteq># mset pool"
    by (metis insert_DiffM mset_subset_eq_add_mset_cancel)
  with len show ?case by (simp add: Let_def)
qed



lemma sample_loop_selection:
  "\<exists>cs w'. sample_loop e tgt groups acc w = (Inr (acc @ concat cs), w')
           \<and> list_all2 (\<lambda>g c. selected_from e tgt (snd g) c) groups cs"
proof (induction groups arbitrary: acc w)
  case Nil
  show ?case by simp
next
  case (Cons g groups)
  obtain pname ids where g: "g = (pname, ids)" by (cases g)
  show ?case
  proof (cases "length ids \<le> tgt")
    case True
    have sel: "selected_from e tgt ids ids" using True by (simp add: selected_from_def)
    from Cons.IH[of "acc @ ids" w] obtain cs w' where
      r: "sample_loop e tgt groups (acc @ ids) w = (Inr ((acc @ ids) @ concat cs), w')"
      and l: "list_all2 (\<lambda>g c. selected_from e tgt (snd g) c) groups cs" by blast
    have "sample_loop e tgt (g # groups) acc w = (Inr (acc @ concat (ids # cs)), w')"
    proof (cases "ids = []")
      case True
      with r show ?thesis by (simp add: g)
    next
      case False
      with r \<open>length ids \<le> tgt\<close> show ?thesis by (simp add: g)
    qed
    moreover have "list_all2 (\<lambda>g c. selected_from e tgt (snd g) c) (g # groups) (ids # cs)"
      using l sel by (simp add: g)
    ultimately show ?thesis by blast
  next
    case False
    then have big: "tgt < length ids" and ne: "ids \<noteq> []" by auto
    let ?s = "sample_from_pool (rand e) (draws w) ids tgt"
    let ?w1 = "w\<lparr>draws := draws w + tgt\<rparr>"
    have rs: "random_sample e ids tgt w = (Inr ?s, ?w1)"
      using big by (simp add: random_sample_def)
    from big have "tgt \<le> length ids" by simp
    from sample_from_pool_props[OF this, of "rand e" "draws w"] big
    have sel: "selected_from e tgt ids ?s" by (auto simp: selected_from_def)
    from Cons.IH[of "acc @ ?s" ?w1] obtain cs w' where
      r: "sample_loop e tgt groups (acc @ ?s) ?w1 = (Inr ((acc @ ?s) @ concat cs), w')"
      and l: "list_all2 (\<lambda>g c. selected_from e tgt (snd g) c) groups cs" by blast
    have "sample_loop e tgt (g # groups) acc w = (Inr (acc @ concat (?s # cs)), w')"
      using r rs big ne by (simp add: g)
    moreover have "list_all2 (\<lambda>g c. selected_from e tgt (snd g) c) (g # groups) (?s # cs)"
      using l sel by (simp add: g)
    ultimately show ?thesis by blast
  qed
qed

lemma selected_from_mset: "selected_from e tgt ids c \<Longrightarrow> mset c \<subseteq># mset ids"
  by (cases "length ids \<le> tgt") (auto simp: selected_from_def)

lemma selected_from_length: "selected_from e tgt ids c \<Longrightarrow> tgt < length ids \<Longrightarrow> length c = tgt"
  by (simp add: selected_from_def)

lemma selection_mset:
  "list_all2 (\<lambda>g c. selected_from e tgt (snd g) c) groups cs \<Longrightarrow>
   mset (concat cs) \<subseteq># mset (concat (map snd groups))"
proof (induction rule: list_all2_induct)
  case Nil
  show ?case by simp
next
  case (Cons g groups c cs)
  from Cons.hyps(1) have "mset c \<subseteq># mset (snd g)" by (rule selected_from_mset)
  with Cons.IH show ?case by (simp add: subset_mset.add_mono)
qed

lemma distinct_mset_subset:
  assumes "mset xs \<subseteq># mset ys" and "distinct ys"
  shows "distinct xs"
proof -
  have "\<And>a. count (mset xs) a \<le> count (mset ys) a"
    using assms(1) by (simp add: mset_subset_eq_count)
  moreover have "\<And>a. count (mset ys) a \<le> 1"
    using assms(2) by (simp add: distinct_count_atmost_1)
  ultimately have "\<And>a. count (mset xs) a \<le> 1" by (meson order_trans)
  then show ?thesis
    by (metis count_mset_0_iff distinct_count_atmost_1 le_antisym not_less_eq_eq le0 One_nat_def count_greater_eq_one_iff set_mset_mset)
qed

lemma length_filter_take: "length (filter P (take n xs)) \<le> length (filter P xs)"
proof -
  have "length (filter P xs) = length (filter P (take n xs)) + length (filter P (drop n xs))"
    by (metis append_take_drop_id filter_append length_append)
  then show ?thesis by simp
qed

lemma selection_members:
  "list_all2 (\<lambda>g c. selected_from e tgt (snd g) c) groups cs \<Longrightarrow>
   distinct (concat (map snd groups)) \<Longrightarrow> g \<in> set groups \<Longrightarrow> tgt < length (snd g) \<Longrightarrow>
   length (filter (\<lambda>x. x \<in> set (snd g)) (concat cs)) \<le> tgt"
proof (induction rule: list_all2_induct)
  case Nil
  then show ?case by simp
next
  case (Cons g' groups c cs)
  let ?S = "\<lambda>x. x \<in> set (snd g)"
  from Cons.prems(1) have d: "distinct (concat (map snd groups))"
    and dj: "set (snd g') \<inter> set (concat (map snd groups)) = {}" by simp_all
  have c: "set c \<subseteq> set (snd g')"
    using selected_from_mset[OF Cons.hyps(1)] by (metis set_mset_mono set_mset_mset)
  have cs: "set (concat cs) \<subseteq> set (concat (map snd groups))"
    using selection_mset[OF Cons.hyps(2)] by (metis set_mset_mono set_mset_mset)
  show ?case
  proof (cases "g = g'")
    case True
    from cs dj have "set (concat cs) \<inter> set (snd g') = {}" by blast
    then have "filter ?S (concat cs) = []" using True by (auto simp: filter_empty_conv)
    moreover have "length (filter ?S c) \<le> length c" by simp
    moreover have "length c = tgt"
      using selected_from_length[OF Cons.hyps(1)] Cons.prems(3) True by simp
    ultimately show ?thesis by simp
  next
    case False
    with Cons.prems(2) have g: "g \<in> set groups" by simp
    then have "set (snd g) \<subseteq> set (concat (map snd groups))" by auto
    with dj c have "set c \<inter> set (snd g) = {}" by blast
    then have "filter ?S c = []" by (auto simp: filter_empty_conv)
    with Cons.IH[OF d g Cons.prems(3)] show ?thesis by simp
  qed
qed

lemma sample_groups_selection:
  assumes "target_per_group mx groups = Inr tgt"
  shows "\<exists>cs w'. sample_groups e mx groups w = (Inr (take mx (concat cs)), w')
            \<and> list_all2 (\<lambda>g c. selected_from e tgt (snd g) c) groups cs"
proof -
  from sample_loop_selection[of e tgt groups "[]" w] obtain cs w' where
    "sample_loop e tgt groups [] w = (Inr (concat cs), w')"
    "list_all2 (\<lambda>g c. selected_from e tgt (snd g) c) groups cs" by auto
  with assms show ?thesis by (auto simp: sample_groups_def)
qed

subsection \<open>The pool algorithm reaches every arrangement once\<close>












subsection \<open>The groups that the grouping phase builds\<close>

lemma fetch_and_group_id:
  assumes "fetch_and_group e i w = (Some (p, i'), w1)"
  shows "i' = i"
proof -
  obtain ua v where g: "get_random_user_agent e w = (ua, v)"
    by (cases "get_random_user_agent e w")
  obtain r v2 where h: "http_get e \<lparr>url = object_url i, params = [], user_agent = ua, timeout = 10\<rparr> v = (r, v2)"
    by (cases "http_get e \<lparr>url = object_url i, params = [], user_agent = ua, timeout = 10\<rparr> v")
  show ?thesis
  proof (cases r)
    case ConnError
    with assms g h show ?thesis by (simp add: fetch_and_group_def)
  next
    case (Response st body js)
    show ?thesis
    proof (cases js)
      case None
      with assms g h Response show ?thesis by (simp add: fetch_and_group_def)
    next
      case (Some obj)
      obtain era pname where "detect_historical_period obj = (era, pname)"
        by (cases "detect_historical_period obj")
      with assms g h Response Some show ?thesis by (simp add: fetch_and_group_def)
    qed
  qed
qed

lemma groups_append_mset:
  "mset (concat (map snd (groups_append groups p i))) = add_mset i (mset (concat (map snd groups)))"
  by (induction groups) auto

lemma groups_append_nonempty:
  "\<forall>g\<in>set groups. snd g \<noteq> [] \<Longrightarrow> \<forall>g\<in>set (groups_append groups p i). snd g \<noteq> []"
proof (induction groups)
  case Nil
  show ?case by simp
next
  case (Cons g groups)
  obtain k ids where g: "g = (k, ids)" by (cases g)
  from Cons.prems have ih: "\<forall>g\<in>set (groups_append groups p i). snd g \<noteq> []"
    by (intro Cons.IH) simp
  show ?case
  proof (cases "k = p")
    case True
    with Cons.prems show ?thesis by (simp add: g)
  next
    case False
    with Cons.prems ih show ?thesis by (simp add: g)
  qed
qed

lemma group_loop_invariant:
  "mset (concat (map snd (fst (group_loop e ids groups w))))
     \<subseteq># mset ids + mset (concat (map snd groups))
   \<and> ((\<forall>g\<in>set groups. snd g \<noteq> []) \<longrightarrow>
        (\<forall>g\<in>set (fst (group_loop e ids groups w)). snd g \<noteq> []))"
proof (induction ids arbitrary: groups w)
  case Nil
  show ?case by simp
next
  case (Cons i ids)
  obtain r w1 where f: "fetch_and_group e i w = (r, w1)" by (cases "fetch_and_group e i w")
  show ?case
  proof (cases r)
    case None
    with f have eq: "group_loop e (i # ids) groups w = group_loop e ids groups w1" by simp
    have "mset ids + mset (concat (map snd groups))
            \<subseteq># mset (i # ids) + mset (concat (map snd groups))" by simp
    with Cons.IH[of groups w1] show ?thesis
      unfolding eq by (meson subset_mset.order_trans)
  next
    case (Some a)
    obtain p i' where a: "a = (p, i')" by (cases a)
    with f Some have i': "i' = i" by (auto dest: fetch_and_group_id)
    let ?g = "groups_append groups p i"
    from f Some a i' have eq: "group_loop e (i # ids) groups w = group_loop e ids ?g w1" by simp
    have m: "mset ids + mset (concat (map snd ?g))
               = mset (i # ids) + mset (concat (map snd groups))"
      by (simp add: groups_append_mset)
    from Cons.IH[of ?g w1] groups_append_nonempty[of groups p i] show ?thesis
      unfolding eq m by blast
  qed
qed

lemma set_update_distinct: "distinct all_ids \<Longrightarrow> distinct (set_update all_ids ids)"
  by (auto simp: set_update_def)

lemma search_loop_distinct: "distinct all_ids \<Longrightarrow> distinct (fst (search_loop e qs all_ids w))"
proof (induction qs arbitrary: all_ids w)
  case Nil
  then show ?case by simp
next
  case (Cons q qs)
  then show ?case
    by (auto simp: set_update_distinct split: prod.splits http_result.splits option.splits)
qed

lemma grouping_phase_invariant:
  "distinct (concat (map snd (fst (grouping_phase e w))))
   \<and> (\<forall>g\<in>set (fst (grouping_phase e w)). snd g \<noteq> [])"
proof -
  obtain ids w1 where s: "search_loop e search_queries [] w = (ids, w1)"
    by (cases "search_loop e search_queries [] w")
  with search_loop_distinct[of "[]" e search_queries w] have "distinct ids" by simp
  then have d: "distinct (sort_key (finish_time e 2) ids)" by simp
  from group_loop_invariant[of e "sort_key (finish_time e 2) ids" "[]" w1]
  have m: "mset (concat (map snd (fst (group_loop e (sort_key (finish_time e 2) ids) [] w1))))
            \<subseteq># mset (sort_key (finish_time e 2) ids)"
    and n: "\<forall>g\<in>set (fst (group_loop e (sort_key (finish_time e 2) ids) [] w1)). snd g \<noteq> []"
    by simp_all
  from m d have "distinct (concat (map snd (fst (group_loop e (sort_key (finish_time e 2) ids) [] w1))))"
    by (rule distinct_mset_subset)
  with n s show ?thesis by (simp add: grouping_phase_def)
qed

subsection \<open>Target and selections\<close>


text \<open>
  Claim C8. For groups that share no ID and repeat none (each discovered ID is classified
  once), the sampled list has at most \<open>mx\<close> entries, holds at most target members of
  any group larger than the target, and holds no ID twice.
\<close>

theorem sampled_within_bounds:
  assumes "distinct (concat (map snd groups))"
    and "target_per_group mx groups = Inr tgt"
    and "sample_groups e mx groups w = (Inr final, w')"
  shows "length final \<le> mx
       \<and> (\<forall>g \<in> set groups. tgt < length (snd g) \<longrightarrow>
            length (filter (\<lambda>x. x \<in> set (snd g)) final) \<le> tgt)
       \<and> distinct final"
proof -
  from sample_groups_selection[OF assms(2), of e w] assms(3) obtain cs where
    f: "final = take mx (concat cs)"
    and l: "list_all2 (\<lambda>g c. selected_from e tgt (snd g) c) groups cs" by auto
  have "distinct (concat cs)"
    using selection_mset[OF l] assms(1) by (rule distinct_mset_subset)
  then have d: "distinct final" by (simp add: f)
  have m: "\<forall>g \<in> set groups. tgt < length (snd g) \<longrightarrow>
            length (filter (\<lambda>x. x \<in> set (snd g)) final) \<le> tgt"
  proof (intro ballI impI)
    fix g assume "g \<in> set groups" "tgt < length (snd g)"
    from selection_members[OF l assms(1) this]
    show "length (filter (\<lambda>x. x \<in> set (snd g)) final) \<le> tgt"
      unfolding f using length_filter_take[of "\<lambda>x. x \<in> set (snd g)" mx "concat cs"] by simp
  qed
  from d m show ?thesis by (simp add: f)
qed

lemmas sampling_eval =
  groups_example_def target_per_group_def min_count_def sample_groups_def random_sample_def
  env_serving_def world0_def




theorem sampled_within_bounds_witness:
  "distinct (concat (map snd groups_example))
   \<and> target_per_group 1 groups_example = Inr 1
   \<and> sample_groups (env_serving ConnError) 1 groups_example world0
        = (Inr [1], world0\<lparr>draws := 1\<rparr>)
   \<and> length [1 :: int] \<le> 1
   \<and> length (filter (\<lambda>x. x \<in> set [1, 2, 3]) [1 :: int]) \<le> 1
   \<and> distinct [1 :: int]"
proof -
  have a: "distinct (concat (map snd groups_example))" by (simp add: groups_example_def)
  have b: "target_per_group 1 groups_example = Inr 1" by (simp add: sampling_eval)
  have c: "sample_groups (env_serving ConnError) 1 groups_example world0
        = (Inr [1], world0\<lparr>draws := 1\<rparr>)"
    by (simp add: sampling_eval)
  from sampled_within_bounds [OF a b c] a b c show ?thesis by simp
qed

end
